theory Spec2Isabelle
  imports Complex_Main "HOL-Library.Word"
begin

section \<open>Text post-processing: \<open>replace_char\<close> and \<open>trim\<close>\<close>

text \<open>
  C strings are modelled by their bytes. \<open>c_string mem\<close> is the string that a
  \<open>const char*\<close> denotes: the bytes of \<open>mem\<close> before the first NUL.
  \<open>isspace\<close> is the classification of the C locale (space, \<open>\t \n \v \f \r\<close>); every other
  byte, the bytes from 0x80 on included, is not white space.
\<close>

definition NUL :: char where
  "NUL = CHR 0x00"

definition isspace :: "char \<Rightarrow> bool" where
  "isspace c = (c \<in> set [CHR 0x20, CHR 0x09, CHR 0x0A, CHR 0x0B, CHR 0x0C, CHR 0x0D])"

definition c_string :: "char list \<Rightarrow> string" where
  "c_string mem = takeWhile (\<lambda>c. c \<noteq> NUL) mem"

text \<open>
  \<open>replace_char\<close> walks the C string \<open>Str\<close> up to its terminator, overwrites every
  occurrence of \<open>ToReplace\<close> and returns \<open>std::string(Start)\<close>, which reads the
  buffer again up to the first NUL.
\<close>

definition replace_char :: "string \<Rightarrow> char \<Rightarrow> char \<Rightarrow> string" where
  "replace_char Str ToReplace ReplaceWith =
     c_string (map (\<lambda>c. if c = ToReplace then ReplaceWith else c) (c_string Str))"

text \<open>
  The last loop of \<open>trim\<close>, \<open>while (Ptr > Str && !isspace(Ptr[0])) Ptr--\<close>, with \<open>Ptr\<close>
  as an index relative to \<open>Str\<close>.
\<close>

fun back_scan :: "char list \<Rightarrow> nat \<Rightarrow> nat" where
  "back_scan Str 0 = 0"
| "back_scan Str (Suc p) = (if isspace (Str ! Suc p) then Suc p else back_scan Str p)"

text \<open>
  \<open>trim\<close> reads the buffer of its argument: the characters, the terminating NUL, and,
  because \<open>while (*Ptr++);\<close> leaves \<open>Ptr\<close> one position behind the terminator, the byte
  that follows the terminator in memory. That byte is not part of the string; it is
  the parameter \<open>past\<close>. The result is \<open>std::string(Str, Ptr - Str)\<close>.
\<close>

definition trim :: "char \<Rightarrow> string \<Rightarrow> string" where
  "trim past String =
     (let mem = String @ [NUL, past];
          Str = dropWhile (\<lambda>c. c \<noteq> NUL \<and> isspace c) mem;
          Ptr = Suc (length (c_string Str))
      in take (back_scan Str Ptr) Str)"

text \<open>
  What \<open>scan_stigmata_screen\<close> stores for a recognised text:
  \<open>trim(replace_char(Str, '\n', ' '))\<close>.
\<close>

definition recognized_text :: "char \<Rightarrow> string \<Rightarrow> string" where
  "recognized_text past Str = trim past (replace_char Str (CHR 0x0A) (CHR 0x20))"

section \<open>Single-precision arithmetic\<close>

text \<open>
  A \<open>float\<close> is modelled by the real number it denotes, and every operation by the
  exact operation followed by \<open>f32\<close>, the rounding of IEEE 754 binary32: to the nearest
  value with a 24-bit significand, ties to the even significand, with the fixed
  quantum \<open>2^-149\<close> below \<open>2^-126\<close>. Each operation of the source is rounded on its own
  (no fused multiply-add, no wider intermediate format). Infinities and NaN are not
  modelled: the computations below stay far inside the finite range.
\<close>

fun bit_length :: "nat \<Rightarrow> nat" where
  "bit_length n = (if n = 0 then 0 else Suc (bit_length (n div 2)))"

declare bit_length.simps [simp del]

text \<open>\<open>binary_exponent x\<close> is the \<open>e\<close> with \<open>2^e \<le> |x| < 2^(e+1)\<close>, for \<open>x \<noteq> 0\<close>.\<close>

definition binary_exponent :: "real \<Rightarrow> int" where
  "binary_exponent x =
     (if 1 \<le> \<bar>x\<bar> then int (bit_length (nat \<lfloor>\<bar>x\<bar>\<rfloor>)) - 1
      else - int (bit_length (nat (\<lceil>1 / \<bar>x\<bar>\<rceil> - 1))))"

definition round_even :: "real \<Rightarrow> int" where
  "round_even r =
     (let f = \<lfloor>r\<rfloor>; d = r - of_int f
      in if d < 1 / 2 then f else if 1 / 2 < d then f + 1 else if even f then f else f + 1)"

definition f32 :: "real \<Rightarrow> real" where
  "f32 x =
     (if x = 0 then 0
      else let q = 2 powi (max (binary_exponent x) (- 126) - 23)
           in of_int (round_even (x / q)) * q)"

definition fadd :: "real \<Rightarrow> real \<Rightarrow> real" where
  "fadd a b = f32 (a + b)"

definition fsub :: "real \<Rightarrow> real \<Rightarrow> real" where
  "fsub a b = f32 (a - b)"

definition fmul :: "real \<Rightarrow> real \<Rightarrow> real" where
  "fmul a b = f32 (a * b)"

definition fdiv :: "real \<Rightarrow> real \<Rightarrow> real" where
  "fdiv a b = f32 (a / b)"

text \<open>
  \<open>sqrtf\<close> is the correctly rounded square root, computed on integers: with \<open>q\<close> the
  quantum of the result, \<open>m\<close> is the integer part of \<open>sqrt x / q\<close> and the rounding
  compares \<open>x / q\<^sup>2\<close> with \<open>(m + 1/2)\<^sup>2\<close>.
\<close>

fun isqrt :: "nat \<Rightarrow> nat" where
  "isqrt n =
     (if n < 2 then n
      else let r = 2 * isqrt (n div 4) in if (r + 1) * (r + 1) \<le> n then r + 1 else r)"

declare isqrt.simps [simp del]

definition sqrtf :: "real \<Rightarrow> real" where
  "sqrtf x =
     (if x \<le> 0 then 0
      else let q = 2 powi (max (binary_exponent x div 2) (- 126) - 23);
               y = x / (q * q);
               m = int (isqrt (nat \<lfloor>y\<rfloor>));
               h = (of_int m + 1 / 2) * (of_int m + 1 / 2);
               n = (if y < h then m else if h < y then m + 1 else if even m then m else m + 1)
           in of_int n * q)"

text \<open>The conversion \<open>(int)\<close> of a \<open>float\<close> truncates towards zero.\<close>

definition trunc_int :: "real \<Rightarrow> int" where
  "trunc_int x = (if 0 \<le> x then \<lfloor>x\<rfloor> else \<lceil>x\<rceil>)"

definition square :: "real \<Rightarrow> real" where
  "square x = fmul x x"

definition clamp :: "int \<Rightarrow> int \<Rightarrow> int \<Rightarrow> int" where
  "clamp a lower upper = min (max a lower) upper"

section \<open>Pixel buffers and the region transforms\<close>

text \<open>
  Memory is a store from addresses to bytes; a \<open>uchar*\<close> is an address. The transforms
  mutate the store in place, so each returns the updated store. The loops
  \<open>for (int i = 0; i < n; i++)\<close> are folds over \<open>[0..n - 1]\<close>, which is empty for
  \<open>n \<le> 0\<close>.
\<close>

type_synonym uchar = "8 word"

type_synonym memory = "int \<Rightarrow> uchar"

definition invert_byte :: "int \<Rightarrow> memory \<Rightarrow> memory" where
  "invert_byte Pixel mem = mem(Pixel := 255 - mem Pixel)"

definition invert_image :: "memory \<Rightarrow> int \<Rightarrow> int \<Rightarrow> int \<Rightarrow> int \<Rightarrow> int \<Rightarrow> memory" where
  "invert_image mem Image' Width Height Channels Stride =
     fold (\<lambda>y. fold (\<lambda>x. fold (\<lambda>Channel.
             invert_byte (Image' + y * Stride + Channels * x + Channel))
           [0..Channels - 1]) [0..Width - 1]) [0..Height - 1] mem"

text \<open>
  One channel of \<open>change_contrast\<close>, on the \<open>int\<close> value of the byte:
  \<open>Value = Contrast * (Pixel[0] / 255.f - 1.f) + 1.f\<close> and
  \<open>clamp((int)((Value + 0.5f) * 255.f), 0x00, 0xff)\<close>, then stored as a byte.
\<close>

definition contrast_level :: "real \<Rightarrow> int \<Rightarrow> int" where
  "contrast_level Contrast p =
     (let Value = fadd (fmul Contrast (fsub (fdiv (f32 (of_int p)) 255) 1)) 1
      in clamp (trunc_int (fmul (fadd Value (1 / 2)) 255)) 0 255)"

definition contrast_value :: "real \<Rightarrow> uchar \<Rightarrow> uchar" where
  "contrast_value Contrast p = word_of_int (contrast_level Contrast (uint p))"

definition contrast_byte :: "real \<Rightarrow> int \<Rightarrow> memory \<Rightarrow> memory" where
  "contrast_byte Contrast Pixel mem = mem(Pixel := contrast_value Contrast (mem Pixel))"

definition change_contrast ::
  "memory \<Rightarrow> int \<Rightarrow> int \<Rightarrow> int \<Rightarrow> int \<Rightarrow> int \<Rightarrow> real \<Rightarrow> memory" where
  "change_contrast mem Image' Width Height Channels Stride Contrast =
     fold (\<lambda>y. fold (\<lambda>x. fold (\<lambda>Channel.
             contrast_byte Contrast (Image' + y * Stride + Channels * x + Channel))
           [0..Channels - 1]) [0..Width - 1]) [0..Height - 1] mem"

text \<open>
  The gray level of a pixel, on the \<open>int\<close> values of its bytes:
  \<open>clamp((int)(0.299f * Pixel[2] + 0.587f * Pixel[1] + 0.114f * Pixel[0]), 0, 255)\<close>,
  then stored as a byte.
\<close>

definition gray_level :: "int \<Rightarrow> int \<Rightarrow> int \<Rightarrow> int" where
  "gray_level p0 p1 p2 =
     clamp (trunc_int
       (fadd (fadd (fmul (f32 (299 / 1000)) (f32 (of_int p2)))
                   (fmul (f32 (587 / 1000)) (f32 (of_int p1))))
             (fmul (f32 (114 / 1000)) (f32 (of_int p0))))) 0 255"

definition gray_value :: "uchar \<Rightarrow> uchar \<Rightarrow> uchar \<Rightarrow> uchar" where
  "gray_value p0 p1 p2 = word_of_int (gray_level (uint p0) (uint p1) (uint p2))"

definition gray_pixel :: "int \<Rightarrow> memory \<Rightarrow> memory" where
  "gray_pixel Pixel mem =
     (let Value = gray_value (mem Pixel) (mem (Pixel + 1)) (mem (Pixel + 2))
      in mem(Pixel + 2 := Value, Pixel + 1 := Value, Pixel := Value))"

definition to_grayscale :: "memory \<Rightarrow> int \<Rightarrow> int \<Rightarrow> int \<Rightarrow> int \<Rightarrow> int \<Rightarrow> memory" where
  "to_grayscale mem Image' Width Height Channels Stride =
     fold (\<lambda>y. fold (\<lambda>x. gray_pixel (Image' + y * Stride + Channels * x))
           [0..Width - 1]) [0..Height - 1] mem"

section \<open>The classifier \<open>screen_test\<close>\<close>

record test_pixel_t =
  tp_x :: int
  tp_y :: int
  Color0 :: uchar
  Color1 :: uchar
  Color2 :: uchar

text \<open>
  \<open>2.f * (0xff + R - Color) / 510.f - 1.f\<close>: the sum in the parentheses is computed on
  \<open>int\<close>, then converted.
\<close>

definition channel_delta :: "uchar \<Rightarrow> uchar \<Rightarrow> real" where
  "channel_delta observed expected =
     fsub (fdiv (fmul 2 (f32 (of_int (255 + uint observed - uint expected)))) 510) 1"

definition pixel_distance :: "memory \<Rightarrow> int \<Rightarrow> test_pixel_t \<Rightarrow> real" where
  "pixel_distance Pixels width TestPixel =
     (let Pixel = 3 * (width * tp_y TestPixel + tp_x TestPixel);
          B = Pixels Pixel;
          G = Pixels (Pixel + 1);
          R = Pixels (Pixel + 2);
          RDelta = channel_delta R (Color0 TestPixel);
          GDelta = channel_delta G (Color1 TestPixel);
          BDelta = channel_delta B (Color2 TestPixel)
      in sqrtf (fadd (fadd (square RDelta) (square GDelta)) (square BDelta)))"

definition screen_indicator :: "memory \<Rightarrow> int \<Rightarrow> test_pixel_t list \<Rightarrow> real" where
  "screen_indicator Pixels width TestPixels =
     fold (\<lambda>TestPixel Indicator.
             fadd Indicator
               (fdiv (pixel_distance Pixels width TestPixel)
                     (fmul 3 (f32 (of_int (int (length TestPixels)))))))
          TestPixels 0"

definition screen_confidence :: "memory \<Rightarrow> int \<Rightarrow> test_pixel_t list \<Rightarrow> real" where
  "screen_confidence Pixels width TestPixels = fsub 1 (screen_indicator Pixels width TestPixels)"

definition screen_test :: "memory \<Rightarrow> int \<Rightarrow> test_pixel_t list \<Rightarrow> real \<Rightarrow> bool" where
  "screen_test Pixels width TestPixels ThresholdConfidence =
     (ThresholdConfidence \<le> screen_confidence Pixels width TestPixels)"

section \<open>Events, the per-screen latches and the frame loop of \<open>main\<close>\<close>

datatype event_type_t =
    EVENT_STIGMATA_SCREEN
  | EVENT_WEAPON_SCREEN
  | EVENT_DIVINE_KEY_SCREEN
  | EVENT_LINEUP_SCREEN
  | EVENT_ABYSS_BATTLE
  | EVENT_ARENA_BATTLE
  | EVENT_VALKYRIE_NAME
  | EVENT_VALKYRIE_RANK
  | EVENT_WEAPON
  | EVENT_STIGMATA
  | EVENT_ELF
  | EVENT_DIVINE_KEY

record event_t =
  Type :: event_type_t
  Value :: string

text \<open>
  \<open>state_t\<close> without its two handles of external libraries (the video capture and the
  recogniser).
\<close>

record state_t =
  Width :: int
  Height :: int
  Events :: "event_t list"
  HadStigmataScreenIndicator :: bool
  HadLineupScreenIndicator :: bool

definition add_event :: "state_t \<Rightarrow> event_type_t \<Rightarrow> string \<Rightarrow> state_t" where
  "add_event State T V = State\<lparr>Events := Events State @ [\<lparr>Type = T, Value = V\<rparr>]\<rparr>"

text \<open>
  The recogniser is external: \<open>Tess mem SubImage w h channels stride\<close> stands for the text
  that \<open>GetUTF8Text\<close> returns after \<open>SetImage\<close> and \<open>Recognize\<close> on that region of the
  store. \<open>past\<close> is the byte that \<open>trim\<close> finds behind the terminator of its argument.
  Logging and the image files written by the scans leave the state untouched and are
  left out.
\<close>

type_synonym tess_t = "memory \<Rightarrow> int \<Rightarrow> int \<Rightarrow> int \<Rightarrow> int \<Rightarrow> int \<Rightarrow> string"

definition scan_stigmata_screen ::
  "tess_t \<Rightarrow> char \<Rightarrow> state_t \<Rightarrow> memory \<Rightarrow> state_t \<times> memory" where
  "scan_stigmata_screen Tess past State RefFrame =
     (let State = add_event State EVENT_STIGMATA_SCREEN [];
          ImageChannels = 3;
          ImageStrideBytes = ImageChannels * Width State;
          SubImage = ImageChannels * (Width State * 912 + 188);
          RefFrame = change_contrast RefFrame SubImage 484 72 ImageChannels ImageStrideBytes 4;
          RefFrame = invert_image RefFrame SubImage 484 72 ImageChannels ImageStrideBytes;
          RefFrame = to_grayscale RefFrame SubImage 484 72 ImageChannels ImageStrideBytes;
          Text = recognized_text past (Tess RefFrame SubImage 484 72 ImageChannels ImageStrideBytes);
          State = add_event State EVENT_VALKYRIE_NAME Text
      in fold (\<lambda>Box (State, RefFrame).
                 let SubImage = ImageChannels * (Width State * snd Box + fst Box);
                     RefFrame = invert_image RefFrame SubImage 284 188 ImageChannels ImageStrideBytes;
                     RefFrame = change_contrast RefFrame SubImage 284 188 ImageChannels ImageStrideBytes 4;
                     Text = recognized_text past
                              (Tess RefFrame SubImage 284 188 ImageChannels ImageStrideBytes)
                 in (add_event State EVENT_STIGMATA Text, RefFrame))
              [(872, 550), (1232, 550), (1592, 550)] (State, RefFrame))"

definition scan_lineup_screen :: "state_t \<Rightarrow> state_t" where
  "scan_lineup_screen State = add_event State EVENT_LINEUP_SCREEN []"

definition StigmataScreenThresholdConfidence :: real where
  "StigmataScreenThresholdConfidence = f32 (97 / 100)"

definition StigmataScreenIndicators :: "test_pixel_t list" where
  "StigmataScreenIndicators =
     [\<lparr>tp_x = 120, tp_y = 200, Color0 = 0xee, Color1 = 0x9a, Color2 = 0xff\<rparr>,
      \<lparr>tp_x = 990, tp_y = 864, Color0 = 0xff, Color1 = 0xdd, Color2 = 0x47\<rparr>,
      \<lparr>tp_x = 1350, tp_y = 864, Color0 = 0xff, Color1 = 0xdd, Color2 = 0x47\<rparr>,
      \<lparr>tp_x = 1710, tp_y = 864, Color0 = 0xff, Color1 = 0xdd, Color2 = 0x47\<rparr>,
      \<lparr>tp_x = 1280, tp_y = 974, Color0 = 0x00, Color1 = 0xc9, Color2 = 0xff\<rparr>]"

definition LineupScreenThresholdConfidence :: real where
  "LineupScreenThresholdConfidence = f32 (97 / 100)"

definition LineupScreenIndicators :: "test_pixel_t list" where
  "LineupScreenIndicators =
     [\<lparr>tp_x = 1762, tp_y = 168, Color0 = 0xff, Color1 = 0xdd, Color2 = 0x47\<rparr>,
      \<lparr>tp_x = 1762, tp_y = 390, Color0 = 0xff, Color1 = 0xdd, Color2 = 0x47\<rparr>,
      \<lparr>tp_x = 1762, tp_y = 608, Color0 = 0xff, Color1 = 0xdd, Color2 = 0x47\<rparr>,
      \<lparr>tp_x = 181, tp_y = 97, Color0 = 0xff, Color1 = 0xdb, Color2 = 0x48\<rparr>,
      \<lparr>tp_x = 1520, tp_y = 986, Color0 = 0x00, Color1 = 0x5a, Color2 = 0x7e\<rparr>]"

text \<open>
  The two tests of the loop body, on a frame that already has the target size.
\<close>

definition stigmata_test :: "state_t \<Rightarrow> memory \<Rightarrow> bool" where
  "stigmata_test State Frame =
     screen_test Frame (Width State) StigmataScreenIndicators StigmataScreenThresholdConfidence"

definition lineup_test :: "state_t \<Rightarrow> memory \<Rightarrow> bool" where
  "lineup_test State Frame =
     screen_test Frame (Width State) LineupScreenIndicators LineupScreenThresholdConfidence"

text \<open>
  The body of the frame loop. \<open>check\<close> starts true and is cleared by the first test that
  succeeds; a test is evaluated only while \<open>check\<close> holds (\<open>check && screen_test(...)\<close>).
\<close>

definition process_frame :: "tess_t \<Rightarrow> char \<Rightarrow> state_t \<Rightarrow> memory \<Rightarrow> state_t" where
  "process_frame Tess past State Frame =
     (let check = True;
          (State, RefFrame, check) =
            (if check \<and> stigmata_test State Frame
             then (if \<not> HadStigmataScreenIndicator State
                   then (let (State, RefFrame) =
                               scan_stigmata_screen Tess past
                                 (State\<lparr>HadStigmataScreenIndicator := True\<rparr>) Frame
                         in (State, RefFrame, False))
                   else (State, Frame, False))
             else (State\<lparr>HadStigmataScreenIndicator := False\<rparr>, Frame, check))
      in if check \<and> lineup_test State RefFrame
         then (if \<not> HadLineupScreenIndicator State
               then scan_lineup_screen (State\<lparr>HadLineupScreenIndicator := True\<rparr>)
               else State)
         else State\<lparr>HadLineupScreenIndicator := False\<rparr>)"

definition process_frames :: "tess_t \<Rightarrow> char \<Rightarrow> state_t \<Rightarrow> memory list \<Rightarrow> state_t" where
  "process_frames Tess past State Frames =
     fold (\<lambda>Frame State. process_frame Tess past State Frame) Frames State"

text \<open>
  The state at the first frame. \<open>main\<close> sets \<open>Width\<close>, \<open>Height\<close> and
  \<open>HadStigmataScreenIndicator\<close>; it never initialises \<open>HadLineupScreenIndicator\<close>, whose
  first value is whatever the stack holds: the parameter \<open>lineup0\<close>.
\<close>

definition initial_state :: "bool \<Rightarrow> state_t" where
  "initial_state lineup0 =
     \<lparr>Width = 1920, Height = 1080, Events = [],
      HadStigmataScreenIndicator = False, HadLineupScreenIndicator = lineup0\<rparr>"

section \<open>Vocabulary of the properties\<close>

text \<open>
  An anchor is matched exactly when the three bytes of its pixel (stored blue, green,
  red) equal its expected colour, and is at maximal distance when every channel is 255
  where 0 is expected or 0 where 255 is expected.
\<close>

definition anchor_exact :: "memory \<Rightarrow> int \<Rightarrow> test_pixel_t \<Rightarrow> bool" where
  "anchor_exact Pixels width TestPixel =
     (let Pixel = 3 * (width * tp_y TestPixel + tp_x TestPixel)
      in Pixels (Pixel + 2) = Color0 TestPixel \<and>
         Pixels (Pixel + 1) = Color1 TestPixel \<and>
         Pixels Pixel = Color2 TestPixel)"

definition channel_max :: "uchar \<Rightarrow> uchar \<Rightarrow> bool" where
  "channel_max observed expected =
     (observed = 255 \<and> expected = 0 \<or> observed = 0 \<and> expected = 255)"

definition anchor_max :: "memory \<Rightarrow> int \<Rightarrow> test_pixel_t \<Rightarrow> bool" where
  "anchor_max Pixels width TestPixel =
     (let Pixel = 3 * (width * tp_y TestPixel + tp_x TestPixel)
      in channel_max (Pixels (Pixel + 2)) (Color0 TestPixel) \<and>
         channel_max (Pixels (Pixel + 1)) (Color1 TestPixel) \<and>
         channel_max (Pixels Pixel) (Color2 TestPixel))"

text \<open>
  \<open>repeat_fadd n t s\<close> adds \<open>t\<close> to \<open>s\<close> \<open>n\<close> times in single precision;
  \<open>maxdist_confidence N\<close> is one minus the \<open>N\<close>-fold sum of \<open>sqrtf(3) / (3 * N)\<close>.
\<close>

fun repeat_fadd :: "nat \<Rightarrow> real \<Rightarrow> real \<Rightarrow> real" where
  "repeat_fadd 0 t s = s"
| "repeat_fadd (Suc n) t s = repeat_fadd n t (fadd s t)"

definition maxdist_confidence :: "nat \<Rightarrow> real" where
  "maxdist_confidence N =
     fsub 1 (repeat_fadd N (fdiv (sqrtf 3) (fmul 3 (f32 (of_int (int N))))) 0)"

text \<open>Sample inputs: a store of bytes 255 and an anchor at the origin that expects black.\<close>

definition white :: memory where
  "white = (\<lambda>a. 255)"

definition black_anchor :: test_pixel_t where
  "black_anchor = \<lparr>tp_x = 0, tp_y = 0, Color0 = 0, Color1 = 0, Color2 = 0\<rparr>"

text \<open>
  What a second \<open>to_grayscale\<close> does to a gray level, and what \<open>change_contrast\<close> with
  factor 1 does to a channel value; \<open>gray_diagonal\<close> and \<open>contrast_one\<close> state the two
  facts for one value.
\<close>

definition regray_level :: "int \<Rightarrow> int" where
  "regray_level n =
     (if n \<in> {37, 61, 74, 93, 111, 122, 148, 186, 215, 222, 233, 244, 253} then n - 1 else n)"

definition gray_diagonal :: "int \<Rightarrow> bool" where
  "gray_diagonal n = (gray_level n n n = regray_level n)"

definition brighten_level :: "int \<Rightarrow> int" where
  "brighten_level n = min (n + 127) 255"

definition contrast_one :: "int \<Rightarrow> bool" where
  "contrast_one n = (contrast_level 1 n = brighten_level n)"

text \<open>
  The byte addresses that the three nested loops of \<open>invert_image\<close> and
  \<open>change_contrast\<close> visit, the pixel addresses that the two loops of \<open>to_grayscale\<close>
  visit, and the three bytes of each of these pixels.
\<close>

definition image_bytes :: "int \<Rightarrow> int \<Rightarrow> int \<Rightarrow> int \<Rightarrow> int \<Rightarrow> int list" where
  "image_bytes Image' w h Channels Stride =
     concat (map (\<lambda>y. concat (map (\<lambda>x.
       map (\<lambda>Channel. Image' + y * Stride + Channels * x + Channel) [0..Channels - 1])
       [0..w - 1])) [0..h - 1])"

definition pixel_bases :: "int \<Rightarrow> int \<Rightarrow> int \<Rightarrow> int \<Rightarrow> int \<Rightarrow> int list" where
  "pixel_bases Image' w h Channels Stride =
     concat (map (\<lambda>y. map (\<lambda>x. Image' + y * Stride + Channels * x) [0..w - 1]) [0..h - 1])"

definition pixel_bytes :: "int \<Rightarrow> int \<Rightarrow> int \<Rightarrow> int \<Rightarrow> int \<Rightarrow> int list" where
  "pixel_bytes Image' w h Channels Stride =
     concat (map (\<lambda>Pixel. [Pixel, Pixel + 1, Pixel + 2]) (pixel_bases Image' w h Channels Stride))"

text \<open>Pixel addresses that lie at least three bytes apart from each other.\<close>

fun sep3 :: "int list \<Rightarrow> bool" where
  "sep3 [] = True"
| "sep3 (p # ps) = (list_all (\<lambda>q. 3 \<le> \<bar>p - q\<bar>) ps \<and> sep3 ps)"

definition brighten :: "uchar \<Rightarrow> uchar" where
  "brighten p = (if p \<le> 128 then p + 127 else 255)"

definition regray :: "uchar \<Rightarrow> uchar" where
  "regray v =
     (if v \<in> {37, 61, 74, 93, 111, 122, 148, 186, 215, 222, 233, 244, 253} then v - 1 else v)"

text \<open>Sample stores: all bytes 0, and one pixel with blue 37, green 37, red 38 at address 0.\<close>

definition black :: memory where
  "black = (\<lambda>a. 0)"

definition sample_pixel :: memory where
  "sample_pixel = black(0 := 37, 1 := 37, 2 := 38)"

text \<open>
  The verdicts of the two tests at the width that \<open>main\<close> sets, the verdict that the
  loop body acts on for the lineup screen (its test runs only when the stigmata test
  failed), the events appended between two states, and the number of events of one
  type.
\<close>

definition stigmata_verdict :: "memory \<Rightarrow> bool" where
  "stigmata_verdict Frame =
     screen_test Frame 1920 StigmataScreenIndicators StigmataScreenThresholdConfidence"

definition lineup_verdict :: "memory \<Rightarrow> bool" where
  "lineup_verdict Frame =
     screen_test Frame 1920 LineupScreenIndicators LineupScreenThresholdConfidence"

definition lineup_effective :: "memory \<Rightarrow> bool" where
  "lineup_effective Frame = (\<not> stigmata_verdict Frame \<and> lineup_verdict Frame)"

definition emitted :: "state_t \<Rightarrow> state_t \<Rightarrow> event_t list" where
  "emitted before after = drop (length (Events before)) (Events after)"

definition entered :: "event_type_t \<Rightarrow> event_t list \<Rightarrow> nat" where
  "entered T evs = length (filter (\<lambda>e. Type e = T) evs)"

definition is_screen_event :: "event_t \<Rightarrow> bool" where
  "is_screen_event e =
     (Type e \<in> set [EVENT_STIGMATA_SCREEN, EVENT_WEAPON_SCREEN, EVENT_DIVINE_KEY_SCREEN,
                    EVENT_LINEUP_SCREEN])"

text \<open>
  The events appended while the frames \<open>run\<close> are processed, after the frames \<open>pre\<close>
  from the start of the video.
\<close>

definition run_events :: "tess_t \<Rightarrow> char \<Rightarrow> bool \<Rightarrow> memory list \<Rightarrow> memory list \<Rightarrow> event_t list" where
  "run_events Tess past lineup0 pre run =
     (let State = process_frames Tess past (initial_state lineup0) pre
      in emitted State (process_frames Tess past State run))"

text \<open>
  Sample inputs: a recogniser that reads nothing, and frames that show the lineup
  anchors, or both the lineup and the stigmata anchors, on black.
\<close>

definition silent :: tess_t where
  "silent = (\<lambda>mem SubImage w h channels stride. [])"

definition paint :: "test_pixel_t list \<Rightarrow> memory \<Rightarrow> memory" where
  "paint TestPixels mem =
     fold (\<lambda>TestPixel m.
             m(3 * (1920 * tp_y TestPixel + tp_x TestPixel) := Color2 TestPixel,
               3 * (1920 * tp_y TestPixel + tp_x TestPixel) + 1 := Color1 TestPixel,
               3 * (1920 * tp_y TestPixel + tp_x TestPixel) + 2 := Color0 TestPixel))
          TestPixels mem"

definition lineup_frame :: memory where
  "lineup_frame = paint LineupScreenIndicators black"

definition both_frame :: memory where
  "both_frame = paint StigmataScreenIndicators lineup_frame"

section \<open>Properties of the text post-processing\<close>

lemma isspace_NUL: "\<not> isspace NUL"
  by (simp add: isspace_def NUL_def)

lemma back_scan_none:
  "(\<And>i. i \<le> p \<Longrightarrow> \<not> isspace (Str ! i)) \<Longrightarrow> back_scan Str p = 0"
  by (induction p) auto

lemma c_string_terminated:
  "NUL \<notin> set xs \<Longrightarrow> c_string (xs @ NUL # ys) = xs"
  by (induction xs) (auto simp add: c_string_def)

lemma length_c_string_embedded:
  "NUL \<in> set xs \<Longrightarrow> length (c_string (xs @ ys)) < length xs"
  by (induction xs) (auto simp add: c_string_def)

lemmas text_eval = recognized_text_def replace_char_def trim_def c_string_def isspace_def NUL_def

text \<open>
  C4 (code defect). The claim: the post-processing of a recognised text replaces the
  newlines by spaces, removes the white space at both ends and keeps every other
  character. \<open>trim\<close> removes the leading white space, but its backward loop stops at the
  last white-space character of the text instead of the last character that is not
  white space. So exactly one white-space character is removed at the end, together
  with everything behind it: the text \<open>Kiana Kaslana\<close> comes back as \<open>Kiana\<close>, and the
  same text followed by two newlines keeps a space at its end. (When the byte behind
  the terminator is white space, nothing is removed and the terminator is appended.)
\<close>

theorem recognized_text_cuts_last_word:
  "recognized_text past ''Kiana Kaslana'' =
     (if isspace past then ''Kiana Kaslana'' @ [NUL] else ''Kiana'') \<and>
   recognized_text past (''Kiana Kaslana'' @ [CHR 0x0A, CHR 0x0A]) =
     (if isspace past then ''Kiana Kaslana  '' @ [NUL] else ''Kiana Kaslana '')"
  by (cases "isspace past") (simp_all add: text_eval)

text \<open>
  C10 (code defect). The claim: \<open>trim\<close> returns the empty string for every non-empty
  string without white space. \<open>while (*Ptr++);\<close> leaves \<open>Ptr\<close> one position behind the
  terminator, so the backward loop begins by reading a byte that is not part of the
  string, and the result depends on that byte. When it is white space the loop stops
  at once, and the whole string comes back with its terminator appended: \<open>abc\<close>
  followed in memory by a space is returned as the four bytes \<open>abc\<close>, NUL. Only when
  it is not white space does the loop run back to the start and discard the string.
  (A string with an embedded NUL is discarded in either case: the byte behind its
  first NUL is one of its own characters.)
\<close>

theorem trim_no_space:
  assumes "\<forall>c\<in>set String. \<not> isspace c"
  shows "trim past String =
           (if isspace past \<and> NUL \<notin> set String then String @ [NUL] else [])"
proof -
  let ?mem = "String @ [NUL, past]"
  have inner: "\<And>i. i \<le> length String \<Longrightarrow> \<not> isspace (?mem ! i)"
  proof -
    fix i assume "i \<le> length String"
    then have "?mem ! i = (String @ [NUL]) ! i" and "i < length (String @ [NUL])"
      by (simp_all add: nth_append)
    then have "?mem ! i \<in> set (String @ [NUL])"
      using nth_mem by metis
    then show "\<not> isspace (?mem ! i)"
      using assms isspace_NUL by auto
  qed
  have Str: "dropWhile (\<lambda>c. c \<noteq> NUL \<and> isspace c) ?mem = ?mem"
    using inner[of 0] by (cases ?mem) auto
  show ?thesis
  proof (cases "NUL \<in> set String")
    case True
    then have len: "Suc (length (c_string ?mem)) \<le> length String"
      using length_c_string_embedded[of String "[NUL, past]"] by simp
    have "back_scan ?mem (Suc (length (c_string ?mem))) = 0"
    proof (rule back_scan_none)
      fix i assume "i \<le> Suc (length (c_string ?mem))"
      then show "\<not> isspace (?mem ! i)" using len inner by simp
    qed
    with True show ?thesis
      by (simp add: trim_def Let_def Str del: back_scan.simps)
  next
    case False
    then have cs: "c_string ?mem = String"
      using c_string_terminated[of String "[past]"] by simp
    have past: "?mem ! Suc (length String) = past"
      by (simp add: nth_append)
    show ?thesis
    proof (cases "isspace past")
      case True
      then have "back_scan ?mem (Suc (length String)) = Suc (length String)"
        using past by simp
      with True False show ?thesis
        by (simp add: trim_def Let_def Str cs del: back_scan.simps)
    next
      case np: False
      have "back_scan ?mem (Suc (length String)) = 0"
      proof (rule back_scan_none)
        fix i assume i: "i \<le> Suc (length String)"
        show "\<not> isspace (?mem ! i)"
        proof (cases "i = Suc (length String)")
          case True then show ?thesis using past np by simp
        next
          case False then show ?thesis using i inner by simp
        qed
      qed
      with np show ?thesis
        by (simp add: trim_def Let_def Str cs del: back_scan.simps)
    qed
  qed
qed

theorem trim_no_space_witness:
  "''abc'' \<noteq> [] \<and> list_all (\<lambda>c. \<not> isspace c) ''abc'' \<and>
   trim (CHR 0x20) ''abc'' = ''abc'' @ [NUL] \<and> trim NUL ''abc'' = []"
  using trim_no_space[of "''abc''" "CHR 0x20"] trim_no_space[of "''abc''" NUL]
  by (simp add: isspace_def NUL_def)

section \<open>Properties of the region transforms\<close>

lemma fold_nested: "fold (\<lambda>y. fold f (g y)) ys = fold f (concat (map g ys))"
  by (induction ys) auto

lemma fold_byte_map: "fold (\<lambda>c. f (g c)) cs = fold f (map g cs)"
  by (simp add: fold_map comp_def)

lemma invert_byte_twice: "invert_byte a (invert_byte a m) = m"
  by (simp add: invert_byte_def fun_eq_iff)

lemma invert_byte_commute: "invert_byte a (invert_byte b m) = invert_byte b (invert_byte a m)"
  by (auto simp: invert_byte_def fun_eq_iff)

lemma fold_invert_byte_commute:
  "fold invert_byte as (invert_byte a m) = invert_byte a (fold invert_byte as m)"
  by (induction as arbitrary: m) (simp_all add: invert_byte_commute[of _ a])

lemma fold_invert_byte_twice: "fold invert_byte as (fold invert_byte as m) = m"
  by (induction as arbitrary: m) (simp_all add: fold_invert_byte_commute invert_byte_twice)

lemma invert_image_fold:
  "invert_image mem Image' w h Channels Stride =
     fold invert_byte
       (concat (map (\<lambda>y. concat (map (\<lambda>x.
          map (\<lambda>Channel. Image' + y * Stride + Channels * x + Channel) [0..Channels - 1])
          [0..w - 1])) [0..h - 1])) mem"
proof -
  have inner: "\<And>y x. fold (\<lambda>Channel. invert_byte (Image' + y * Stride + Channels * x + Channel))
        [0..Channels - 1] =
      fold invert_byte (map (\<lambda>Channel. Image' + y * Stride + Channels * x + Channel) [0..Channels - 1])"
    by (rule fold_byte_map)
  show ?thesis
    unfolding invert_image_def inner fold_nested ..
qed

text \<open>
  C8. For every store, base address, width, height, channel count and stride,
  \<open>invert_image\<close> applied twice gives back the store it started from, byte for byte.
  Rows may overlap (a stride smaller than a row): a byte inverted several times in
  one pass is inverted an even number of times in two.
\<close>

theorem invert_image_twice:
  "invert_image (invert_image mem Image' w h Channels Stride)
     Image' w h Channels Stride = mem"
  by (simp add: invert_image_fold fold_invert_byte_twice)

section \<open>The rounding \<open>f32\<close>\<close>

text \<open>
  \<open>binary_exponent\<close> is the exponent of the binade of its argument, \<open>f32\<close> rounds to the
  nearest multiple of the quantum of that binade, and \<open>sqrtf\<close> is the correctly rounded
  square root.
\<close>

lemma bit_length_bounds: "0 < n \<Longrightarrow> 2 ^ (bit_length n - 1) \<le> n \<and> n < 2 ^ bit_length n"
proof (induction n rule: bit_length.induct)
  case (1 n)
  have bl: "bit_length n = Suc (bit_length (n div 2))"
    using "1.prems" by (simp add: bit_length.simps[of n])
  show ?case
  proof (cases "n div 2 = 0")
    case True
    then have "n = 1" using "1.prems" by (simp add: div_eq_0_iff)
    then show ?thesis by (simp add: bit_length.simps[of "Suc 0"] bit_length.simps[of 0])
  next
    case False
    then have IH: "2 ^ (bit_length (n div 2) - 1) \<le> n div 2" "n div 2 < 2 ^ bit_length (n div 2)"
      using "1.IH" "1.prems" by simp_all
    have "bit_length (n div 2) = Suc (bit_length (n div 2) - 1)"
      using False by (simp add: bit_length.simps[of "n div 2"])
    then have "(2::nat) ^ bit_length (n div 2) = 2 * 2 ^ (bit_length (n div 2) - 1)"
      by (metis power_Suc)
    then have "2 ^ bit_length (n div 2) \<le> 2 * (n div 2)" using IH(1) by simp
    moreover have "n < 2 * (n div 2) + 2" by linarith
    moreover have "2 * (n div 2) \<le> n" by simp
    ultimately show ?thesis using IH(2) by (simp add: bl)
  qed
qed


lemma binary_exponent_bounds:
  assumes "x \<noteq> 0"
  shows "2 powi binary_exponent x \<le> \<bar>x\<bar> \<and> \<bar>x\<bar> < 2 powi (binary_exponent x + 1)"
proof (cases "1 \<le> \<bar>x\<bar>")
  case True
  define n where "n = nat \<lfloor>\<bar>x\<bar>\<rfloor>"
  have n: "0 < n" "real n \<le> \<bar>x\<bar>" "\<bar>x\<bar> < real n + 1"
    using True by (simp_all add: n_def) (linarith+)?
  have e: "binary_exponent x = int (bit_length n) - 1"
    using True by (simp add: binary_exponent_def n_def)
  have k: "0 < bit_length n" using n(1) by (simp add: bit_length.simps[of n])
  have b: "2 ^ (bit_length n - 1) \<le> n" "n < 2 ^ bit_length n"
    using bit_length_bounds[OF n(1)] by simp_all
  have p1: "(2::real) powi (int (bit_length n) - 1) = 2 ^ (bit_length n - 1)"
    using k by (simp add: power_int_def nat_diff_distrib')
  have p2: "(2::real) ^ (bit_length n - 1) \<le> real n"
    using b(1) by (metis of_nat_le_iff of_nat_numeral of_nat_power)
  have p3: "(2::real) powi (int (bit_length n) - 1 + 1) = 2 ^ bit_length n"
    by simp
  have p4: "real n + 1 \<le> 2 ^ bit_length n"
    using b(2) by (metis Suc_leI of_nat_Suc of_nat_le_iff of_nat_numeral of_nat_power add.commute)
  have "2 powi binary_exponent x \<le> \<bar>x\<bar>"
    unfolding e p1 using p2 n(2) by linarith
  moreover have "\<bar>x\<bar> < 2 powi (binary_exponent x + 1)"
    unfolding e p3 using p4 n(3) by linarith
  ultimately show ?thesis ..
next
  case False
  define y where "y = 1 / \<bar>x\<bar>"
  define n where "n = nat (\<lceil>y\<rceil> - 1)"
  have y: "1 < y" "0 < \<bar>x\<bar>" using False assms by (simp_all add: y_def)
  then have c: "2 \<le> \<lceil>y\<rceil>" by linarith
  have n: "0 < n" "real n < y" "y \<le> real n + 1"
    using c by (simp_all add: n_def) (linarith+)?
  have e: "binary_exponent x = - int (bit_length n)"
    using False by (simp add: binary_exponent_def n_def y_def)
  have k: "0 < bit_length n" using n(1) by (simp add: bit_length.simps[of n])
  have b: "2 ^ (bit_length n - 1) \<le> n" "n < 2 ^ bit_length n"
    using bit_length_bounds[OF n(1)] by simp_all
  have lo: "(2::real) ^ (bit_length n - 1) < y"
  proof -
    have "(2::real) ^ (bit_length n - 1) \<le> real n"
      using b(1) by (metis of_nat_le_iff of_nat_numeral of_nat_power)
    then show ?thesis using n(2) by linarith
  qed
  have hi: "y \<le> 2 ^ bit_length n"
  proof -
    have "real n + 1 \<le> 2 ^ bit_length n"
      using b(2) by (metis Suc_leI of_nat_Suc of_nat_le_iff of_nat_numeral of_nat_power add.commute)
    then show ?thesis using n(3) by linarith
  qed
  have x: "\<bar>x\<bar> = 1 / y" using y by (simp add: y_def)
  have p1: "(2::real) powi (- int (bit_length n)) = 1 / 2 ^ bit_length n"
    by (simp add: power_int_minus_divide)
  have p2: "1 / 2 ^ bit_length n \<le> 1 / y"
    using hi y(1) by (simp add: frac_le)
  have p3: "(2::real) powi (- int (bit_length n) + 1) = 1 / 2 ^ (bit_length n - 1)"
  proof -
    have "- int (bit_length n) + 1 = - int (bit_length n - 1)" using k by simp
    then show ?thesis by (simp only: power_int_minus_divide power_int_of_nat)
  qed
  have p4: "1 / y < 1 / 2 ^ (bit_length n - 1)"
    using lo by (simp add: frac_less2)
  have "2 powi binary_exponent x \<le> \<bar>x\<bar>"
    unfolding e p1 x using p2 .
  moreover have "\<bar>x\<bar> < 2 powi (binary_exponent x + 1)"
    unfolding e p3 x using p4 .
  ultimately show ?thesis ..
qed


lemma binary_exponent_unique:
  assumes "2 powi k \<le> \<bar>x\<bar>" and "\<bar>x\<bar> < 2 powi (k + 1)"
  shows "binary_exponent x = k"
proof -
  have "(0::real) < 2 powi k" by simp
  then have "0 < \<bar>x\<bar>" using assms(1) by linarith
  then have "x \<noteq> 0" by auto
  then have b: "2 powi binary_exponent x \<le> \<bar>x\<bar>" "\<bar>x\<bar> < 2 powi (binary_exponent x + 1)"
    using binary_exponent_bounds by blast+
  have "\<not> k + 1 \<le> binary_exponent x"
  proof
    assume "k + 1 \<le> binary_exponent x"
    then have "(2::real) powi (k + 1) \<le> 2 powi binary_exponent x"
      by (intro power_int_increasing) auto
    then show False using b(1) assms(2) by linarith
  qed
  moreover have "\<not> binary_exponent x + 1 \<le> k"
  proof
    assume "binary_exponent x + 1 \<le> k"
    then have "(2::real) powi (binary_exponent x + 1) \<le> 2 powi k"
      by (intro power_int_increasing) auto
    then show False using b(2) assms(1) by linarith
  qed
  ultimately show ?thesis by linarith
qed

lemma round_even_nearest: "\<bar>of_int (round_even r) - r\<bar> \<le> 1 / 2"
  unfolding round_even_def Let_def by (auto; linarith)

lemma round_even_tie: "r - of_int \<lfloor>r\<rfloor> = 1 / 2 \<Longrightarrow> even (round_even r)"
  unfolding round_even_def Let_def by auto

lemma round_even_of_int: "round_even (of_int k) = k"
  unfolding round_even_def Let_def by simp

text \<open>
  \<open>f32 x\<close> is a multiple of the quantum of the binade of \<open>x\<close>, with a significand of at
  most 24 bits, and lies within half a quantum of \<open>x\<close>.
\<close>

lemma f32_half_quantum:
  "\<bar>f32 x - x\<bar> \<le> 2 powi (max (binary_exponent x) (- 126) - 24)"
proof (cases "x = 0")
  case True
  then show ?thesis by (simp add: f32_def)
next
  case False
  define q :: real where "q = 2 powi (max (binary_exponent x) (- 126) - 23)"
  have q: "0 < q" by (simp add: q_def)
  have half: "q / 2 = 2 powi (max (binary_exponent x) (- 126) - 24)"
  proof -
    have "max (binary_exponent x) (- 126) - 23 = (max (binary_exponent x) (- 126) - 24) + 1"
      by simp
    then have "q = 2 powi (max (binary_exponent x) (- 126) - 24) * 2"
      unfolding q_def using power_int_add_1[of "2::real" "max (binary_exponent x) (- 126) - 24"]
      by simp
    then show ?thesis by simp
  qed
  have "f32 x - x = q * (of_int (round_even (x / q)) - x / q)"
    using False q by (simp add: f32_def Let_def q_def[symmetric] field_simps)
  then have "\<bar>f32 x - x\<bar> = q * \<bar>of_int (round_even (x / q)) - x / q\<bar>"
    using q by (simp add: abs_mult)
  also have "\<dots> \<le> q * (1 / 2)"
    using q round_even_nearest[of "x / q"] by (intro mult_left_mono) auto
  finally show ?thesis using half by simp
qed

lemma isqrt_bounds: "isqrt n * isqrt n \<le> n \<and> n < (isqrt n + 1) * (isqrt n + 1)"
proof (induction n rule: isqrt.induct)
  case (1 n)
  show ?case
  proof (cases "n < 2")
    case True
    then have "n = 0 \<or> n = 1" by linarith
    then show ?thesis by (auto simp: isqrt.simps[of 0] isqrt.simps[of "Suc 0"])
  next
    case False
    define r where "r = 2 * isqrt (n div 4)"
    have IH: "isqrt (n div 4) * isqrt (n div 4) \<le> n div 4"
      "n div 4 < (isqrt (n div 4) + 1) * (isqrt (n div 4) + 1)"
      using "1.IH" False by simp_all
    have lo: "r * r \<le> n"
    proof -
      have "r * r = 4 * (isqrt (n div 4) * isqrt (n div 4))" by (simp add: r_def)
      also have "\<dots> \<le> 4 * (n div 4)" using IH(1) by simp
      also have "\<dots> \<le> n" by simp
      finally show ?thesis .
    qed
    have hi: "n < (r + 2) * (r + 2)"
    proof -
      have "n div 4 + 1 \<le> (isqrt (n div 4) + 1) * (isqrt (n div 4) + 1)" using IH(2) by simp
      then have "4 * (n div 4) + 4 \<le> 4 * ((isqrt (n div 4) + 1) * (isqrt (n div 4) + 1))" by simp
      also have "\<dots> = (r + 2) * (r + 2)" by (simp add: r_def algebra_simps)
      finally have "4 * (n div 4) + 4 \<le> (r + 2) * (r + 2)" .
      moreover have "n < 4 * (n div 4) + 4" by linarith
      ultimately show ?thesis by linarith
    qed
    have eq: "isqrt n = (if (r + 1) * (r + 1) \<le> n then r + 1 else r)"
      using False by (simp add: isqrt.simps[of n] Let_def r_def)
    show ?thesis
    proof (cases "(r + 1) * (r + 1) \<le> n")
      case True
      then show ?thesis using hi by (simp add: eq)
    next
      case False
      then show ?thesis using lo by (simp add: eq)
    qed
  qed
qed


lemma floor_sqrt:
  assumes "0 \<le> y"
  shows "\<lfloor>sqrt y\<rfloor> = int (isqrt (nat \<lfloor>y\<rfloor>))"
proof -
  define n where "n = nat \<lfloor>y\<rfloor>"
  define m where "m = isqrt n"
  have n: "real n \<le> y" "y < real n + 1"
    using assms by (simp_all add: n_def) (linarith+)?
  have b: "m * m \<le> n" "n < (m + 1) * (m + 1)"
    using isqrt_bounds[of n] by (simp_all add: m_def)
  have "real (m * m) \<le> real n" using b(1) by (simp only: of_nat_le_iff)
  then have "(real m)\<^sup>2 \<le> y" using n(1) by (simp add: power2_eq_square)
  then have lo: "real m \<le> sqrt y" by (rule real_le_rsqrt)
  have "Suc n \<le> (m + 1) * (m + 1)" using b(2) by simp
  then have "real (Suc n) \<le> real ((m + 1) * (m + 1))" by (simp only: of_nat_le_iff)
  then have "real n + 1 \<le> (real m + 1) * (real m + 1)" by (simp add: algebra_simps)
  then have "y < (real m + 1) * (real m + 1)" using n(2) by linarith
  then have "y < (real m + 1)\<^sup>2" by (simp only: power2_eq_square)
  then have hi: "sqrt y < real m + 1" by (intro real_less_lsqrt) auto
  have "\<lfloor>sqrt y\<rfloor> = int m"
    by (rule floor_unique) (use lo hi in simp_all)
  then show ?thesis by (simp add: m_def n_def)
qed

lemma sqrt_less_iff_square:
  assumes "0 \<le> y" "0 \<le> a"
  shows "sqrt y < a \<longleftrightarrow> y < a * a" and "a < sqrt y \<longleftrightarrow> a * a < y"
proof -
  have a: "sqrt (a * a) = a" using assms(2) by simp
  show "sqrt y < a \<longleftrightarrow> y < a * a"
    using real_sqrt_less_iff[of y "a * a"] a by simp
  show "a < sqrt y \<longleftrightarrow> a * a < y"
    using real_sqrt_less_iff[of "a * a" y] a by simp
qed

text \<open>\<open>sqrtf\<close> is the square root rounded by \<open>f32\<close>.\<close>

lemma sqrtf_correctly_rounded:
  assumes "0 < x"
  shows "sqrtf x = f32 (sqrt x)"
proof -
  define h where "h = binary_exponent x div 2"
  have b: "2 powi binary_exponent x \<le> x" "x < 2 powi (binary_exponent x + 1)"
    using binary_exponent_bounds[of x] assms by simp_all
  have sq: "(2 powi k)\<^sup>2 = (2::real) powi (2 * k)" for k
    by (simp add: power2_eq_square power_int_add[symmetric])
  have "(2::real) powi (2 * h) \<le> 2 powi binary_exponent x"
    by (intro power_int_increasing) (simp_all add: h_def)
  then have "(2 powi h)\<^sup>2 \<le> x" using b(1) by (simp add: sq)
  then have lo: "2 powi h \<le> sqrt x" by (rule real_le_rsqrt)
  have "(2::real) powi (binary_exponent x + 1) \<le> 2 powi (2 * (h + 1))"
    by (intro power_int_increasing) (simp_all add: h_def)
  then have "x < (2 powi (h + 1))\<^sup>2" using b(2) by (simp add: sq)
  then have hi: "sqrt x < 2 powi (h + 1)" by (intro real_less_lsqrt) auto
  have pos: "0 < sqrt x" using assms by simp
  have be: "binary_exponent (sqrt x) = h"
    by (rule binary_exponent_unique) (use lo hi pos in simp_all)
  define q :: real where "q = 2 powi (max h (- 126) - 23)"
  define y where "y = x / (q * q)"
  have q: "0 < q" by (simp add: q_def)
  have y: "0 \<le> y" using assms q by (simp add: y_def)
  have sy: "sqrt x / q = sqrt y"
    using q by (simp add: y_def real_sqrt_divide)
  define m where "m = int (isqrt (nat \<lfloor>y\<rfloor>))"
  have fl: "\<lfloor>sqrt y\<rfloor> = m" by (simp add: m_def floor_sqrt[OF y])
  have m0: "0 \<le> (of_int m :: real) + 1 / 2" by (simp add: m_def)
  have c1: "sqrt y - of_int m < 1 / 2 \<longleftrightarrow> y < (of_int m + 1 / 2) * (of_int m + 1 / 2)"
    using sqrt_less_iff_square(1)[OF y m0] by auto
  have c2: "1 / 2 < sqrt y - of_int m \<longleftrightarrow> (of_int m + 1 / 2) * (of_int m + 1 / 2) < y"
    using sqrt_less_iff_square(2)[OF y m0] by auto
  have "round_even (sqrt y) =
      (if y < (of_int m + 1 / 2) * (of_int m + 1 / 2) then m
       else if (of_int m + 1 / 2) * (of_int m + 1 / 2) < y then m + 1
       else if even m then m else m + 1)"
    unfolding round_even_def Let_def fl using c1 c2 by simp
  then have "f32 (sqrt x) =
      of_int (if y < (of_int m + 1 / 2) * (of_int m + 1 / 2) then m
       else if (of_int m + 1 / 2) * (of_int m + 1 / 2) < y then m + 1
       else if even m then m else m + 1) * q"
    using pos by (simp add: f32_def Let_def be q_def[symmetric] sy)
  moreover have "sqrtf x =
      of_int (if y < (of_int m + 1 / 2) * (of_int m + 1 / 2) then m
       else if (of_int m + 1 / 2) * (of_int m + 1 / 2) < y then m + 1
       else if even m then m else m + 1) * q"
  proof -
    have "\<not> x \<le> 0" using assms by simp
    then show ?thesis
      unfolding sqrtf_def Let_def q_def y_def m_def h_def by (simp only: if_False)
  qed
  ultimately show ?thesis by simp
qed


text \<open>Integers of at most 24 bits, the bytes among them, are converted without rounding.\<close>

lemma f32_of_int:
  assumes "\<bar>k\<bar> < 2 ^ 24"
  shows "f32 (of_int k) = of_int k"
proof (cases "k = 0")
  case True
  then show ?thesis by (simp add: f32_def)
next
  case False
  define e where "e = binary_exponent (of_int k)"
  have b: "2 powi e \<le> \<bar>real_of_int k\<bar>" "\<bar>real_of_int k\<bar> < 2 powi (e + 1)"
    using binary_exponent_bounds[of "of_int k"] False by (simp_all add: e_def)
  have "1 \<le> \<bar>k\<bar>" using False by linarith
  then have "real_of_int 1 \<le> real_of_int \<bar>k\<bar>" by (simp only: of_int_le_iff)
  then have k1: "1 \<le> \<bar>real_of_int k\<bar>" by simp
  have "real_of_int \<bar>k\<bar> < real_of_int (2 ^ 24)" using assms by (simp only: of_int_less_iff)
  then have k2: "\<bar>real_of_int k\<bar> < 2 ^ 24" by simp
  have e0: "0 \<le> e"
  proof (rule ccontr)
    assume "\<not> 0 \<le> e"
    then have "(2::real) powi (e + 1) \<le> 2 powi 0" by (intro power_int_increasing) auto
    then show False using b(2) k1 by simp
  qed
  have e23: "e \<le> 23"
  proof (rule ccontr)
    assume "\<not> e \<le> 23"
    then have "(2::real) powi 24 \<le> 2 powi e" by (intro power_int_increasing) auto
    then show False using b(1) k2 by simp
  qed
  define j where "j = nat (23 - e)"
  have q: "(2::real) powi (max e (- 126) - 23) = 1 / 2 ^ j"
  proof -
    have "max e (- 126) - 23 = - int j" using e0 e23 by (simp add: j_def)
    then show ?thesis by (simp only: power_int_minus_divide power_int_of_nat)
  qed
  have "real_of_int k / (1 / 2 ^ j) = of_int (k * 2 ^ j)" by simp
  then have "round_even (real_of_int k / (1 / 2 ^ j)) = k * 2 ^ j"
    by (simp only: round_even_of_int)
  then show ?thesis
    using False by (simp add: f32_def Let_def e_def[symmetric] q)
qed

section \<open>Evaluation of the single-precision operations\<close>

text \<open>
  The recursions on binary numerals, and the definitions to unfold, for computing with
  \<open>f32\<close> inside the simplifier.
\<close>

lemma bit_length_numeral:
  "bit_length 0 = 0" "bit_length (Suc 0) = 1"
  "bit_length (numeral k) = Suc (bit_length (numeral k div 2))"
  by (simp_all add: bit_length.simps[of 0] bit_length.simps[of "Suc 0"] bit_length.simps[of "numeral k"])

lemma isqrt_numeral:
  "isqrt 0 = 0" "isqrt (Suc 0) = Suc 0"
  "isqrt (numeral k) =
     (if numeral k < (2::nat) then numeral k
      else let r = 2 * isqrt (numeral k div 4) in if (r + 1) * (r + 1) \<le> numeral k then r + 1 else r)"
  by (simp_all add: isqrt.simps[of 0] isqrt.simps[of "Suc 0"] isqrt.simps[of "numeral k"])

lemma repeat_fadd_numeral:
  "repeat_fadd (numeral k) t s = repeat_fadd (pred_numeral k) t (fadd s t)"
  by (simp add: numeral_eq_Suc)

lemma round_even_unfold:
  "round_even r =
     (if r - of_int \<lfloor>r\<rfloor> < 1 / 2 then \<lfloor>r\<rfloor>
      else if 1 / 2 < r - of_int \<lfloor>r\<rfloor> then \<lfloor>r\<rfloor> + 1
      else if even \<lfloor>r\<rfloor> then \<lfloor>r\<rfloor> else \<lfloor>r\<rfloor> + 1)"
  by (simp add: round_even_def Let_def)

lemma f32_unfold:
  "f32 x =
     (if x = 0 then 0
      else of_int (round_even (x / 2 powi (max (binary_exponent x) (- 126) - 23))) *
           2 powi (max (binary_exponent x) (- 126) - 23))"
  by (simp add: f32_def Let_def)

lemmas f32_eval = f32_unfold binary_exponent_def round_even_unfold Let_def fadd_def fmul_def
  fsub_def fdiv_def trunc_int_def clamp_def square_def bit_length_numeral

lemma f32_0: "f32 0 = 0" by (simp add: f32_def)
lemma f32_1: "f32 1 = 1" by (simp add: f32_eval)

lemma sqrtf_0: "sqrtf 0 = 0" by (simp add: sqrtf_def)

lemma sqrtf_3: "sqrtf 3 = 14529495 / 8388608"
  by (simp add: sqrtf_def binary_exponent_def bit_length_numeral isqrt_numeral Let_def)

text \<open>The constants of the source, as the compiler rounds them.\<close>

lemma float_constants:
  "f32 (299 / 1000) = 10032775 / 33554432"
  "f32 (587 / 1000) = 4924113 / 8388608"
  "f32 (114 / 1000) = 15300821 / 134217728"
  "f32 (97 / 100) = 4068475 / 4194304"
  "f32 (1 / 2) = 1 / 2"
  by (simp_all add: f32_eval)

section \<open>Properties of the classifier\<close>

lemma channel_delta_same: "channel_delta c c = 0"
  by (simp add: channel_delta_def f32_eval)

lemma channel_delta_max_values:
  "square (channel_delta 255 0) = 1" "square (channel_delta 0 255) = 1"
  by (simp_all add: channel_delta_def f32_eval)

lemma channel_delta_max:
  "channel_max observed expected \<Longrightarrow> square (channel_delta observed expected) = 1"
  unfolding channel_max_def using channel_delta_max_values by blast

lemma pixel_distance_exact:
  "anchor_exact Pixels width TestPixel \<Longrightarrow> pixel_distance Pixels width TestPixel = 0"
  by (simp add: anchor_exact_def pixel_distance_def Let_def channel_delta_same square_def fmul_def
      fadd_def f32_0 sqrtf_0)

lemma fadd_1_1_1: "fadd (fadd 1 1) 1 = 3" by (simp add: f32_eval)

lemma pixel_distance_max:
  "anchor_max Pixels width TestPixel \<Longrightarrow> pixel_distance Pixels width TestPixel = sqrtf 3"
  by (simp add: anchor_max_def pixel_distance_def Let_def channel_delta_max fadd_1_1_1)

lemma fold_indicator_const:
  "(\<And>tp. tp \<in> set tps \<Longrightarrow> g tp = c) \<Longrightarrow>
     fold (\<lambda>TestPixel Indicator. fadd Indicator (fdiv (g TestPixel) d)) tps s =
     repeat_fadd (length tps) (fdiv c d) s"
  by (induction tps arbitrary: s) simp_all

lemma repeat_fadd_zero: "repeat_fadd n 0 0 = 0"
  by (induction n) (simp_all add: fadd_def f32_0)

lemma screen_indicator_exact:
  assumes "\<forall>tp\<in>set TestPixels. anchor_exact Pixels width tp"
  shows "screen_indicator Pixels width TestPixels = 0"
proof -
  have "screen_indicator Pixels width TestPixels =
      repeat_fadd (length TestPixels) (fdiv 0 (fmul 3 (f32 (of_int (int (length TestPixels)))))) 0"
    unfolding screen_indicator_def
    by (rule fold_indicator_const) (use assms pixel_distance_exact in blast)
  then show ?thesis
    by (simp add: fdiv_def f32_0 repeat_fadd_zero)
qed

lemma screen_confidence_exact:
  assumes "\<forall>tp\<in>set TestPixels. anchor_exact Pixels width tp"
  shows "screen_confidence Pixels width TestPixels = 1"
  by (simp add: screen_confidence_def screen_indicator_exact[OF assms] fsub_def f32_1)

text \<open>
  C7. For every fingerprint, every store of pixels and every width, when each anchor
  pixel's three channels equal the expected colour, \<open>screen_test\<close> computes the
  confidence 1 and reports a match for every threshold that is at most 1.
\<close>

theorem screen_test_exact_match:
  assumes "\<forall>tp\<in>set TestPixels. anchor_exact Pixels width tp" and "ThresholdConfidence \<le> 1"
  shows "screen_confidence Pixels width TestPixels = 1 \<and>
         screen_test Pixels width TestPixels ThresholdConfidence"
  using assms by (simp add: screen_test_def screen_confidence_exact)

lemma white_black_max: "anchor_max white 1 black_anchor"
  by (simp add: anchor_max_def white_def black_anchor_def channel_max_def)

theorem screen_test_exact_match_witness:
  "list_all (anchor_exact white 1) [black_anchor\<lparr>Color0 := 255, Color1 := 255, Color2 := 255\<rparr>] \<and>
   (97 / 100 :: real) \<le> 1 \<and>
   screen_confidence white 1 [black_anchor\<lparr>Color0 := 255, Color1 := 255, Color2 := 255\<rparr>] = 1 \<and>
   screen_test white 1 [black_anchor\<lparr>Color0 := 255, Color1 := 255, Color2 := 255\<rparr>] (97 / 100)"
  using screen_test_exact_match[of "[black_anchor\<lparr>Color0 := 255, Color1 := 255, Color2 := 255\<rparr>]"
      white 1 "97 / 100"]
  by (simp add: anchor_exact_def white_def black_anchor_def)

text \<open>
  At maximal distance every channel delta is 1 or -1, the distance of an anchor is
  \<open>sqrtf(3)\<close>, and the division by \<open>3 * TestPixelCount\<close> leaves an indicator of about
  \<open>sqrt(3) / 3\<close>, not 1.
\<close>

lemma screen_confidence_max:
  assumes "\<forall>tp\<in>set TestPixels. anchor_max Pixels width tp"
  shows "screen_confidence Pixels width TestPixels = maxdist_confidence (length TestPixels)"
proof -
  have "screen_indicator Pixels width TestPixels =
      repeat_fadd (length TestPixels)
        (fdiv (sqrtf 3) (fmul 3 (f32 (of_int (int (length TestPixels)))))) 0"
    unfolding screen_indicator_def
    by (rule fold_indicator_const) (use assms pixel_distance_max in blast)
  then show ?thesis
    by (simp add: screen_confidence_def maxdist_confidence_def)
qed

lemma maxdist_confidence_1: "maxdist_confidence (Suc 0) = 3545443 / 8388608"
  by (simp add: maxdist_confidence_def sqrtf_3 f32_eval)

lemma maxdist_confidence_values:
  "maxdist_confidence 2 = 3545443 / 8388608"
  "maxdist_confidence 3 = 3545443 / 8388608"
  "maxdist_confidence 4 = 3545443 / 8388608"
  "maxdist_confidence 5 = 3545443 / 8388608"
  "maxdist_confidence 6 = 3545443 / 8388608"
  "maxdist_confidence 7 = 3545443 / 8388608"
  by (simp_all add: maxdist_confidence_def sqrtf_3 f32_eval repeat_fadd_numeral)

text \<open>
  C1, amended: for every frame in which every anchor pixel is at maximal channel-wise
  distance from its expected colour, the confidence depends only on the number \<open>N\<close> of
  anchors: it is one minus the \<open>N\<close>-fold single-precision sum of
  \<open>sqrtf(3) / (3 * N)\<close>. For one to seven anchors (the fingerprints of \<open>main\<close> have
  five) that is exactly \<open>3545443 / 8388608\<close>, about 0.4226, and not 0.
\<close>

theorem screen_confidence_max_distance:
  assumes "\<forall>tp\<in>set TestPixels. anchor_max Pixels width tp"
  shows "screen_confidence Pixels width TestPixels = maxdist_confidence (length TestPixels) \<and>
         (length TestPixels \<in> {1..7} \<longrightarrow>
            screen_confidence Pixels width TestPixels = 3545443 / 8388608)"
proof -
  have eq: "screen_confidence Pixels width TestPixels = maxdist_confidence (length TestPixels)"
    by (rule screen_confidence_max[OF assms])
  have "maxdist_confidence n = 3545443 / 8388608" if "n \<in> {1..7}" for n
  proof -
    from that have "n = Suc 0 \<or> n = 2 \<or> n = 3 \<or> n = 4 \<or> n = 5 \<or> n = 6 \<or> n = 7" by auto
    then show ?thesis using maxdist_confidence_values maxdist_confidence_1 by blast
  qed
  with eq show ?thesis by simp
qed

theorem screen_confidence_max_distance_witness:
  "list_all (anchor_max white 1) [black_anchor] \<and>
   screen_confidence white 1 [black_anchor] = maxdist_confidence 1 \<and>
   screen_confidence white 1 [black_anchor] = 3545443 / 8388608"
  using screen_confidence_max_distance[of "[black_anchor]" white 1] white_black_max
  by simp

text \<open>
  C1, as stated, fails: one anchor that expects black, on a white pixel, is at maximal
  distance, and the confidence is not 0.
\<close>

theorem screen_confidence_max_distance_counterexample:
  "anchor_max white 1 black_anchor \<and> screen_confidence white 1 [black_anchor] \<noteq> 0"
  using screen_confidence_max[of "[black_anchor]" white 1] white_black_max
  by (simp add: maxdist_confidence_1)

section \<open>The two transforms on every channel value\<close>

text \<open>
  Both facts are checked by computing the single-precision operations for each of the
  256 values.
\<close>

lemma contrast_level_unfold:
  "contrast_level Contrast p =
     clamp (trunc_int (fmul (fadd (fadd (fmul Contrast (fsub (fdiv (f32 (of_int p)) 255) 1)) 1)
       (1 / 2)) 255)) 0 255"
  by (simp add: contrast_level_def Let_def)

lemmas level_eval = gray_diagonal_def gray_level_def regray_level_def
  contrast_one_def contrast_level_unfold brighten_level_def f32_eval


lemma gray_diagonal_low: "gray_diagonal 0" "gray_diagonal 1"
  by (simp_all add: level_eval)

lemma gray_diagonal_1: "list_all gray_diagonal [2..63]"
  apply simp
  apply (simp add: level_eval)
  done

lemma gray_diagonal_2: "list_all gray_diagonal [64..127]"
  apply simp
  apply (simp add: level_eval)
  done

lemma gray_diagonal_3: "list_all gray_diagonal [128..191]"
  apply simp
  apply (simp add: level_eval)
  done

lemma gray_diagonal_4: "list_all gray_diagonal [192..255]"
  apply simp
  apply (simp add: level_eval)
  done

lemma contrast_one_low: "contrast_one 0" "contrast_one 1"
  by (simp_all add: level_eval)

lemma contrast_one_1: "list_all contrast_one [2..63]"
  apply simp
  apply (simp add: level_eval)
  done

lemma contrast_one_2: "list_all contrast_one [64..127]"
  apply simp
  apply (simp add: level_eval)
  done

lemma contrast_one_3: "list_all contrast_one [128..191]"
  apply simp
  apply (simp add: level_eval)
  done

lemma contrast_one_4: "list_all contrast_one [192..255]"
  apply simp
  apply (simp add: level_eval)
  done

section \<open>\<open>change_contrast\<close> and \<open>to_grayscale\<close> on buffers\<close>

lemma level_cases:
  assumes "0 \<le> n" "n \<le> (255::int)"
  shows "n = 0 \<or> n = 1 \<or> n \<in> set [2..63] \<or> n \<in> set [64..127] \<or> n \<in> set [128..191] \<or>
         n \<in> set [192..255]"
  unfolding set_upto atLeastAtMost_iff using assms by linarith

lemma gray_level_diagonal:
  assumes "0 \<le> n" "n \<le> 255"
  shows "gray_level n n n = regray_level n"
  using level_cases[OF assms] gray_diagonal_low gray_diagonal_1 gray_diagonal_2
    gray_diagonal_3 gray_diagonal_4
  unfolding list_all_iff gray_diagonal_def by blast

lemma contrast_level_one:
  assumes "0 \<le> n" "n \<le> 255"
  shows "contrast_level 1 n = brighten_level n"
  using level_cases[OF assms] contrast_one_low contrast_one_1 contrast_one_2
    contrast_one_3 contrast_one_4
  unfolding list_all_iff contrast_one_def by blast

lemma uint_uchar_range: "0 \<le> uint (p::uchar) \<and> uint p \<le> 255"
  using uint_lt2p[of p] by simp

lemma contrast_value_one: "contrast_value 1 p = brighten p"
proof -
  have "contrast_value 1 p = word_of_int (min (uint p + 127) 255)"
    using uint_uchar_range[of p]
    by (simp add: contrast_value_def contrast_level_one brighten_level_def)
  also have "\<dots> = brighten p"
  proof (cases "p \<le> 128")
    case True
    then have "uint p \<le> 128" by (simp add: word_le_def)
    then show ?thesis using True by (simp add: brighten_def min_def)
  next
    case False
    then have "128 < uint p" by (simp add: word_le_def)
    then show ?thesis using False by (simp add: brighten_def min_def)
  qed
  finally show ?thesis .
qed

lemma uchar_eq_iff:
  "0 \<le> n \<Longrightarrow> n < 256 \<Longrightarrow> uint (v::uchar) = n \<longleftrightarrow> v = word_of_int n"
  by (auto simp: uint_word_of_int take_bit_int_eq_self)

lemma regray_word: "word_of_int (regray_level (uint v)) = regray (v::uchar)"
  by (simp add: regray_level_def regray_def uchar_eq_iff)

lemma gray_value_diagonal: "gray_value v v v = regray v"
  using uint_uchar_range[of v]
  by (simp add: gray_value_def gray_level_diagonal regray_word)


text \<open>
  When a row is not longer than the stride, the loops visit every byte of the region
  once.
\<close>

lemma distinct_concat_map:
  assumes "distinct ys"
    and "\<And>y. y \<in> set ys \<Longrightarrow> distinct (g y)"
    and "\<And>y y'. y \<in> set ys \<Longrightarrow> y' \<in> set ys \<Longrightarrow> y \<noteq> y' \<Longrightarrow> set (g y) \<inter> set (g y') = {}"
  shows "distinct (concat (map g ys))"
  using assms
proof (induction ys)
  case Nil
  then show ?case by simp
next
  case (Cons y ys)
  have "set (g y) \<inter> set (g y') = {}" if "y' \<in> set ys" for y'
  proof -
    have "y \<noteq> y'" using Cons.prems(1) that by auto
    then show ?thesis using Cons.prems(3)[of y y'] that by simp
  qed
  moreover have "distinct (concat (map g ys))"
    using Cons by auto
  ultimately show ?case using Cons.prems(2)[of y] by auto
qed

lemma next_row: "y < y' \<Longrightarrow> 0 \<le> s \<Longrightarrow> y * s + s \<le> y' * (s::int)"
proof -
  assume "y < y'" "0 \<le> s"
  then have "(y + 1) * s \<le> y' * s" by (intro mult_right_mono) auto
  then show ?thesis by (simp add: algebra_simps)
qed

lemma byte_offset_range:
  assumes "0 \<le> x" "x \<le> w - 1" "0 \<le> c" "c \<le> n - 1"
  shows "0 \<le> n * x + c \<and> n * x + c < n * (w::int)"
proof -
  have n: "1 \<le> n" using assms by linarith
  have "0 \<le> n * x" using n assms by simp
  moreover have "n * x \<le> n * (w - 1)" using n assms by (intro mult_left_mono) auto
  ultimately show ?thesis using assms by (simp add: algebra_simps)
qed

lemma byte_offset_inj:
  assumes "0 \<le> c" "c \<le> n - 1" "0 \<le> c'" "c' \<le> n - 1" "n * x + c = n * x' + (c'::int)"
  shows "x = x'"
proof (rule ccontr)
  assume ne: "x \<noteq> x'"
  have up: "n * a + n \<le> n * b" if "a < b" for a b :: int
  proof -
    have "n * (a + 1) \<le> n * b" using that assms by (intro mult_left_mono) auto
    then show ?thesis by (simp add: algebra_simps)
  qed
  from ne consider "x < x'" | "x' < x" by linarith
  then show False
  proof cases
    case 1 then show ?thesis using up[of x x'] assms by linarith
  next
    case 2 then show ?thesis using up[of x' x] assms by linarith
  qed
qed

lemma distinct_image_bytes:
  assumes "Channels * w \<le> Stride"
  shows "distinct (image_bytes Image' w h Channels Stride)"
  unfolding image_bytes_def
proof (rule distinct_concat_map)
  show "distinct [0..h - 1]" by simp
next
  fix y
  show "distinct (concat (map (\<lambda>x. map (\<lambda>Channel. Image' + y * Stride + Channels * x + Channel)
          [0..Channels - 1]) [0..w - 1]))"
  proof (rule distinct_concat_map)
    show "distinct [0..w - 1]" by simp
  next
    fix x
    show "distinct (map (\<lambda>Channel. Image' + y * Stride + Channels * x + Channel) [0..Channels - 1])"
      by (simp add: distinct_map inj_on_def)
  next
    fix x x' :: int
    assume ne: "x \<noteq> x'"
    let ?f = "\<lambda>x Channel. Image' + y * Stride + Channels * x + Channel"
    have False if 1: "a \<in> set (map (?f x) [0..Channels - 1])"
      and 2: "a \<in> set (map (?f x') [0..Channels - 1])" for a
    proof -
      from 1 obtain c where c: "c \<in> set [0..Channels - 1]" "a = ?f x c"
        unfolding set_map by blast
      from 2 obtain c' where c': "c' \<in> set [0..Channels - 1]" "a = ?f x' c'"
        unfolding set_map by blast
      show False
        using byte_offset_inj[of c Channels c' x x'] c c' ne by simp
    qed
    then show "set (map (?f x) [0..Channels - 1]) \<inter> set (map (?f x') [0..Channels - 1]) = {}"
      by blast
  qed
next
  fix y y' :: int
  assume ne: "y \<noteq> y'"
  have apart: False
    if "a < b" "0 \<le> x" "x \<le> w - 1" "0 \<le> c" "c \<le> Channels - 1"
      "0 \<le> x'" "x' \<le> w - 1" "0 \<le> c'" "c' \<le> Channels - 1"
      "Image' + a * Stride + Channels * x + c = Image' + b * Stride + Channels * x' + c'"
    for a b x x' c c'
  proof -
    have r: "0 \<le> Channels * x + c \<and> Channels * x + c < Channels * w"
      and r': "0 \<le> Channels * x' + c' \<and> Channels * x' + c' < Channels * w"
      using that byte_offset_range by blast+
    then have "0 \<le> Stride" using assms by linarith
    then have "a * Stride + Stride \<le> b * Stride" using that(1) by (rule next_row[rotated])
    then show False using r r' assms that(10) by linarith
  qed
  let ?row = "\<lambda>y. concat (map (\<lambda>x. map (\<lambda>Channel. Image' + y * Stride + Channels * x + Channel)
          [0..Channels - 1]) [0..w - 1])"
  have False if 1: "a \<in> set (?row y)" and 2: "a \<in> set (?row y')" for a
  proof -
    from 1 obtain x c where xc: "x \<in> set [0..w - 1]" "c \<in> set [0..Channels - 1]"
        "a = Image' + y * Stride + Channels * x + c"
      by (auto simp only: set_concat set_map)
    from 2 obtain x' c' where xc': "x' \<in> set [0..w - 1]" "c' \<in> set [0..Channels - 1]"
        "a = Image' + y' * Stride + Channels * x' + c'"
      by (auto simp only: set_concat set_map)
    from ne consider "y < y'" | "y' < y" by linarith
    then show False
    proof cases
      case 1 then show ?thesis using apart[of y y' x c x' c'] xc xc' by simp
    next
      case 2 then show ?thesis using apart[of y' y x' c' x c] xc xc' by simp
    qed
  qed
  then show "set (?row y) \<inter> set (?row y') = {}"
    by blast
qed

lemma fold_contrast_byte:
  "distinct as \<Longrightarrow>
     fold (contrast_byte Contrast) as m =
     (\<lambda>a. if a \<in> set as then contrast_value Contrast (m a) else m a)"
  by (induction as arbitrary: m) (auto simp: contrast_byte_def fun_eq_iff)

lemma change_contrast_fold:
  "change_contrast mem Image' w h Channels Stride Contrast =
     fold (contrast_byte Contrast) (image_bytes Image' w h Channels Stride) mem"
proof -
  have inner: "\<And>y x. fold (\<lambda>Channel. contrast_byte Contrast (Image' + y * Stride + Channels * x + Channel))
        [0..Channels - 1] =
      fold (contrast_byte Contrast)
        (map (\<lambda>Channel. Image' + y * Stride + Channels * x + Channel) [0..Channels - 1])"
    by (rule fold_byte_map)
  show ?thesis
    unfolding change_contrast_def image_bytes_def inner fold_nested ..
qed

lemma change_contrast_one_bytes:
  assumes "Channels * w \<le> Stride"
  shows "change_contrast mem Image' w h Channels Stride 1 =
           (\<lambda>a. if a \<in> set (image_bytes Image' w h Channels Stride) then brighten (mem a) else mem a)"
  by (simp add: change_contrast_fold fold_contrast_byte distinct_image_bytes[OF assms]
      contrast_value_one cong: if_cong)


text \<open>
  With at least three channels per pixel and rows that do not overlap, the pixels that
  \<open>to_grayscale\<close> writes are disjoint, so each pass computes every gray level from the
  three bytes the pixel had before the pass.
\<close>

lemma sep3_append:
  "sep3 (ps @ qs) \<longleftrightarrow> sep3 ps \<and> sep3 qs \<and> (\<forall>p\<in>set ps. \<forall>q\<in>set qs. 3 \<le> \<bar>p - q\<bar>)"
  by (induction ps) (auto simp: list_all_iff)

lemma sep3_row:
  assumes "distinct xs" "3 \<le> n"
  shows "sep3 (map (\<lambda>x. b + n * x) xs)"
  using assms(1)
proof (induction xs)
  case Nil
  then show ?case by simp
next
  case (Cons x xs)
  have "3 \<le> \<bar>b + n * x - (b + n * x')\<bar>" if "x' \<in> set xs" for x'
  proof -
    have "x \<noteq> x'" using Cons.prems that by auto
    then have "1 \<le> \<bar>x - x'\<bar>" by linarith
    then have "n * 1 \<le> n * \<bar>x - x'\<bar>" using assms(2) by (intro mult_left_mono) auto
    moreover have "\<bar>b + n * x - (b + n * x')\<bar> = n * \<bar>x - x'\<bar>"
      using assms(2) by (simp add: abs_mult right_diff_distrib[symmetric])
    ultimately show ?thesis using assms(2) by linarith
  qed
  then show ?case using Cons by (simp add: list_all_iff)
qed

lemma sep3_concat_map:
  assumes "distinct ys"
    and "\<And>y. y \<in> set ys \<Longrightarrow> sep3 (g y)"
    and "\<And>y y' p q. y \<in> set ys \<Longrightarrow> y' \<in> set ys \<Longrightarrow> y \<noteq> y' \<Longrightarrow>
           p \<in> set (g y) \<Longrightarrow> q \<in> set (g y') \<Longrightarrow> 3 \<le> \<bar>p - q\<bar>"
  shows "sep3 (concat (map g ys))"
  using assms
proof (induction ys)
  case Nil
  then show ?case by simp
next
  case (Cons y ys)
  have "3 \<le> \<bar>p - q\<bar>" if "p \<in> set (g y)" "q \<in> set (concat (map g ys))" for p q
  proof -
    from that(2) obtain y' where y': "y' \<in> set ys" "q \<in> set (g y')" by auto
    then have "y \<noteq> y'" using Cons.prems(1) by auto
    then show ?thesis using Cons.prems(3)[of y y' p q] y' that(1) by simp
  qed
  moreover have "sep3 (concat (map g ys))"
  proof (rule Cons.IH)
    show "distinct ys" using Cons.prems(1) by simp
  next
    fix y' assume "y' \<in> set ys"
    then show "sep3 (g y')" using Cons.prems(2)[of y'] by simp
  next
    fix a b p q
    assume "a \<in> set ys" "b \<in> set ys" "a \<noteq> b" "p \<in> set (g a)" "q \<in> set (g b)"
    then show "3 \<le> \<bar>p - q\<bar>" using Cons.prems(3)[of a b p q] by simp
  qed
  ultimately show ?case using Cons.prems(2)[of y] by (simp add: sep3_append)
qed

lemma sep3_pixel_bases:
  assumes "3 \<le> Channels" "Channels * w \<le> Stride"
  shows "sep3 (pixel_bases Image' w h Channels Stride)"
  unfolding pixel_bases_def
proof (rule sep3_concat_map)
  show "distinct [0..h - 1]" by simp
next
  fix y
  have "sep3 (map (\<lambda>x. (Image' + y * Stride) + Channels * x) [0..w - 1])"
    by (rule sep3_row) (use assms in auto)
  then show "sep3 (map (\<lambda>x. Image' + y * Stride + Channels * x) [0..w - 1])" .
next
  fix y y' p q :: int
  assume ne: "y \<noteq> y'"
    and p: "p \<in> set (map (\<lambda>x. Image' + y * Stride + Channels * x) [0..w - 1])"
    and q: "q \<in> set (map (\<lambda>x. Image' + y' * Stride + Channels * x) [0..w - 1])"
  from p obtain x where x: "0 \<le> x" "x \<le> w - 1" "p = Image' + y * Stride + Channels * x"
    by auto
  from q obtain x' where x': "0 \<le> x'" "x' \<le> w - 1" "q = Image' + y' * Stride + Channels * x'"
    by auto
  have apart: "a * Stride + Channels * u + 3 \<le> b * Stride + Channels * v"
    if "a < b" "0 \<le> u" "u \<le> w - 1" "0 \<le> v" "v \<le> w - 1" for a b u v
  proof -
    have "Channels * u \<le> Channels * (w - 1)" using that assms by (intro mult_left_mono) auto
    moreover have "0 \<le> Channels * v" using that assms by simp
    moreover have "0 \<le> Stride"
    proof -
      have "0 \<le> Channels * w" using that assms by simp
      then show ?thesis using assms by linarith
    qed
    then have "a * Stride + Stride \<le> b * Stride" using that(1) by (rule next_row[rotated])
    ultimately show ?thesis using assms by (simp add: algebra_simps)
  qed
  from ne consider "y < y'" | "y' < y" by linarith
  then show "3 \<le> \<bar>p - q\<bar>"
  proof cases
    case 1 then show ?thesis using apart[of y y' x x'] x x' by simp
  next
    case 2 then show ?thesis using apart[of y' y x' x] x x' by simp
  qed
qed

lemma gray_pixel_other: "a < p \<or> p + 2 < a \<Longrightarrow> gray_pixel p m a = m a"
  by (auto simp: gray_pixel_def Let_def)

lemma gray_pixel_at:
  "0 \<le> k \<Longrightarrow> k \<le> 2 \<Longrightarrow> gray_pixel p m (p + k) = gray_value (m p) (m (p + 1)) (m (p + 2))"
  by (auto simp: gray_pixel_def Let_def)

lemma gray_fold_outside:
  "(\<And>p. p \<in> set ps \<Longrightarrow> a < p \<or> p + 2 < a) \<Longrightarrow> fold gray_pixel ps m a = m a"
  by (induction ps arbitrary: m) (simp_all add: gray_pixel_other)

lemma gray_fold_inside:
  assumes "sep3 ps" "p \<in> set ps" "0 \<le> k" "k \<le> 2"
  shows "fold gray_pixel ps m (p + k) = gray_value (m p) (m (p + 1)) (m (p + 2))"
  using assms(1,2)
proof (induction ps arbitrary: m)
  case Nil
  then show ?case by simp
next
  case (Cons r rs)
  have far: "3 \<le> \<bar>r - q\<bar>" if "q \<in> set rs" for q
    using Cons.prems(1) that by (simp add: list_all_iff)
  show ?case
  proof (cases "p = r")
    case True
    have "fold gray_pixel rs (gray_pixel r m) (r + k) = gray_pixel r m (r + k)"
    proof (rule gray_fold_outside)
      fix q assume "q \<in> set rs"
      then show "r + k < q \<or> q + 2 < r + k" using far[of q] assms(3,4) by linarith
    qed
    then show ?thesis using True assms(3,4) by (simp add: gray_pixel_at)
  next
    case False
    then have p: "p \<in> set rs" using Cons.prems(2) by simp
    have "fold gray_pixel rs (gray_pixel r m) (p + k) =
        gray_value (gray_pixel r m p) (gray_pixel r m (p + 1)) (gray_pixel r m (p + 2))"
      using Cons.IH[of "gray_pixel r m"] Cons.prems(1) p by simp
    moreover have "gray_pixel r m (p + j) = m (p + j)" if "0 \<le> j" "j \<le> 2" for j
      by (rule gray_pixel_other) (use far[OF p] that in linarith)
    from this[of 0] this[of 1] this[of 2]
    have "gray_pixel r m p = m p" "gray_pixel r m (p + 1) = m (p + 1)"
        "gray_pixel r m (p + 2) = m (p + 2)"
      by simp_all
    ultimately show ?thesis by simp
  qed
qed

lemma to_grayscale_fold:
  "to_grayscale mem Image' w h Channels Stride =
     fold gray_pixel (pixel_bases Image' w h Channels Stride) mem"
proof -
  have inner: "\<And>y. fold (\<lambda>x. gray_pixel (Image' + y * Stride + Channels * x)) [0..w - 1] =
      fold gray_pixel (map (\<lambda>x. Image' + y * Stride + Channels * x) [0..w - 1])"
    by (rule fold_byte_map)
  show ?thesis
    unfolding to_grayscale_def pixel_bases_def inner fold_nested ..
qed

lemma pixel_bytes_iff:
  "a \<in> set (pixel_bytes Image' w h Channels Stride) \<longleftrightarrow>
     (\<exists>p\<in>set (pixel_bases Image' w h Channels Stride). p \<le> a \<and> a \<le> p + 2)"
proof -
  have "a \<in> set (pixel_bytes Image' w h Channels Stride) \<longleftrightarrow>
      (\<exists>p\<in>set (pixel_bases Image' w h Channels Stride). a = p \<or> a = p + 1 \<or> a = p + 2)"
    unfolding pixel_bytes_def by auto
  moreover have "(a = p \<or> a = p + 1 \<or> a = p + 2) \<longleftrightarrow> (p \<le> a \<and> a \<le> p + 2)" for p
    by linarith
  ultimately show ?thesis by simp
qed

lemma second_pass_bytes:
  assumes "3 \<le> Channels" "Channels * w \<le> Stride"
  shows "to_grayscale (to_grayscale mem Image' w h Channels Stride) Image' w h Channels Stride =
           (\<lambda>a. if a \<in> set (pixel_bytes Image' w h Channels Stride)
                then regray (to_grayscale mem Image' w h Channels Stride a)
                else to_grayscale mem Image' w h Channels Stride a)"
proof
  fix a
  let ?ps = "pixel_bases Image' w h Channels Stride"
  let ?m1 = "fold gray_pixel ?ps mem"
  have sep: "sep3 ?ps" by (rule sep3_pixel_bases[OF assms])
  show "to_grayscale (to_grayscale mem Image' w h Channels Stride) Image' w h Channels Stride a =
      (if a \<in> set (pixel_bytes Image' w h Channels Stride)
       then regray (to_grayscale mem Image' w h Channels Stride a)
       else to_grayscale mem Image' w h Channels Stride a)"
  proof (cases "a \<in> set (pixel_bytes Image' w h Channels Stride)")
    case True
    then obtain p where p: "p \<in> set ?ps" "p \<le> a" "a \<le> p + 2"
      unfolding pixel_bytes_iff by blast
    define k where "k = a - p"
    have k: "0 \<le> k" "k \<le> 2" "a = p + k" using p by (simp_all add: k_def)
    define g where "g = gray_value (mem p) (mem (p + 1)) (mem (p + 2))"
    have m1: "?m1 (p + j) = g" if "0 \<le> j" "j \<le> 2" for j
      using gray_fold_inside[OF sep p(1) that] by (simp add: g_def)
    have "fold gray_pixel ?ps ?m1 (p + k) = gray_value (?m1 p) (?m1 (p + 1)) (?m1 (p + 2))"
      by (rule gray_fold_inside[OF sep p(1) k(1,2)])
    also have "\<dots> = gray_value g g g"
      using m1[of 0] m1[of 1] m1[of 2] by simp
    also have "\<dots> = regray (?m1 (p + k))"
      using m1[OF k(1,2)] by (simp add: gray_value_diagonal)
    finally show ?thesis using True k by (simp add: to_grayscale_fold)
  next
    case False
    then have "fold gray_pixel ?ps ?m1 a = ?m1 a"
      unfolding pixel_bytes_iff by (intro gray_fold_outside) force
    then show ?thesis using False by (simp add: to_grayscale_fold)
  qed
qed


lemma one_pixel_lists:
  "image_bytes 0 1 1 3 3 = [0, 1, 2]" "pixel_bases 0 1 1 3 3 = [0]" "pixel_bytes 0 1 1 3 3 = [0, 1, 2]"
  by (simp_all add: image_bytes_def pixel_bases_def pixel_bytes_def upto.simps)

text \<open>
  C2, as stated, fails: with factor 1.0 a black pixel does not stay black, its bytes
  become 127.
\<close>

theorem change_contrast_one_counterexample:
  "black 0 = 0 \<and> change_contrast black 0 1 1 3 3 1 0 = 127"
  by (simp add: change_contrast_one_bytes one_pixel_lists black_def brighten_def)

text \<open>
  C2, amended: on every buffer whose rows do not overlap, \<open>change_contrast\<close> with factor
  1.0 replaces each channel value \<open>p\<close> of the region by \<open>min(p + 127, 255)\<close> and leaves
  every other byte as it is. The \<open>0.5f\<close> is added before the multiplication by 255, so
  the transform is a brightening by 127 with saturation, not the identity.
\<close>

theorem change_contrast_factor_one:
  assumes "Channels * w \<le> Stride"
  shows "change_contrast mem Image' w h Channels Stride 1 =
           (\<lambda>a. if a \<in> set (image_bytes Image' w h Channels Stride) then brighten (mem a) else mem a)"
  by (rule change_contrast_one_bytes[OF assms])

theorem change_contrast_factor_one_witness:
  "(3::int) * 1 \<le> 3 \<and>
   change_contrast sample_pixel 0 1 1 3 3 1 =
     (\<lambda>a. if a \<in> set (image_bytes 0 1 1 3 3) then brighten (sample_pixel a) else sample_pixel a)"
  using change_contrast_factor_one[of 3 1 3 sample_pixel 0 1] by simp

lemma gray_level_sample: "gray_level 37 37 38 = 37"
  by (simp add: gray_level_def f32_eval)

lemma to_grayscale_sample: "to_grayscale sample_pixel 0 1 1 3 3 0 = 37"
  by (simp add: to_grayscale_fold one_pixel_lists gray_pixel_def gray_value_def sample_pixel_def
      gray_level_sample)

text \<open>
  C9, as stated, fails: on the pixel with blue 37, green 37 and red 38 the first pass
  gives the gray level 37 and the second pass gives 36, because
  \<open>0.299f * 37 + 0.587f * 37 + 0.114f * 37\<close> is rounded to a value just below 37 and then
  truncated.
\<close>

theorem to_grayscale_twice_counterexample:
  "to_grayscale sample_pixel 0 1 1 3 3 0 = 37 \<and>
   to_grayscale (to_grayscale sample_pixel 0 1 1 3 3) 0 1 1 3 3 0 = 36"
  by (simp add: second_pass_bytes one_pixel_lists to_grayscale_sample regray_def)

text \<open>
  C9, amended: on every buffer with at least three channels per pixel whose rows do
  not overlap, a second \<open>to_grayscale\<close> leaves the result of the first unchanged except
  at pixels whose gray level after the first pass is one of 37, 61, 74, 93, 111, 122,
  148, 186, 215, 222, 233, 244 and 253: there it lowers each of the three bytes by one.
  The thirteen levels are those of single-precision arithmetic with every operation
  rounded on its own.
\<close>

theorem to_grayscale_twice:
  assumes "3 \<le> Channels" "Channels * w \<le> Stride"
  shows "to_grayscale (to_grayscale mem Image' w h Channels Stride) Image' w h Channels Stride =
           (\<lambda>a. if a \<in> set (pixel_bytes Image' w h Channels Stride)
                then regray (to_grayscale mem Image' w h Channels Stride a)
                else to_grayscale mem Image' w h Channels Stride a)"
  by (rule second_pass_bytes[OF assms])

theorem to_grayscale_twice_witness:
  "(3::int) \<le> 3 \<and> (3::int) * 1 \<le> 3 \<and>
   to_grayscale (to_grayscale sample_pixel 0 1 1 3 3) 0 1 1 3 3 =
     (\<lambda>a. if a \<in> set (pixel_bytes 0 1 1 3 3)
          then regray (to_grayscale sample_pixel 0 1 1 3 3 a)
          else to_grayscale sample_pixel 0 1 1 3 3 a)"
  using to_grayscale_twice[of 3 1 3 sample_pixel 0 1] by simp

section \<open>Properties of the latches\<close>

lemma scan_stigmata_screen_events:
  "\<exists>E. Events (fst (scan_stigmata_screen Tess past State RefFrame)) =
         Events State @ \<lparr>Type = EVENT_STIGMATA_SCREEN, Value = []\<rparr> # E \<and>
       map Type E = [EVENT_VALKYRIE_NAME, EVENT_STIGMATA, EVENT_STIGMATA, EVENT_STIGMATA]"
  by (simp add: scan_stigmata_screen_def add_event_def Let_def)

lemma scan_stigmata_screen_fields:
  "Width (fst (scan_stigmata_screen Tess past State RefFrame)) = Width State"
  "HadStigmataScreenIndicator (fst (scan_stigmata_screen Tess past State RefFrame)) =
     HadStigmataScreenIndicator State"
  "HadLineupScreenIndicator (fst (scan_stigmata_screen Tess past State RefFrame)) =
     HadLineupScreenIndicator State"
  by (simp_all add: scan_stigmata_screen_def add_event_def Let_def)

lemma entered_append: "entered T (xs @ ys) = entered T xs + entered T ys"
  by (simp add: entered_def)

lemma entered_types: "entered T evs = length (filter (\<lambda>t. t = T) (map Type evs))"
  by (simp add: entered_def filter_map comp_def)

lemma emitted_append: "Events after = Events before @ E \<Longrightarrow> emitted before after = E"
  by (simp add: emitted_def)

lemma stigmata_test_width: "Width State = 1920 \<Longrightarrow> stigmata_test State = stigmata_verdict"
  by (simp add: stigmata_test_def stigmata_verdict_def fun_eq_iff)

lemma lineup_test_width: "Width State = 1920 \<Longrightarrow> lineup_test State = lineup_verdict"
  by (simp add: lineup_test_def lineup_verdict_def fun_eq_iff)

lemma test_update [simp]:
  "stigmata_test (State\<lparr>HadStigmataScreenIndicator := b\<rparr>) = stigmata_test State"
  "lineup_test (State\<lparr>HadStigmataScreenIndicator := b\<rparr>) = lineup_test State"
  "lineup_test (State\<lparr>Events := E\<rparr>) = lineup_test State"
  by (simp_all add: stigmata_test_def lineup_test_def fun_eq_iff)

text \<open>What one pass through the loop body does, by the outcome of the stigmata test.\<close>

lemma process_frame_width: "Width (process_frame Tess past State Frame) = Width State"
  by (simp add: process_frame_def Let_def split_beta scan_stigmata_screen_fields
      scan_lineup_screen_def add_event_def)

lemma process_frame_latches:
  "HadStigmataScreenIndicator (process_frame Tess past State Frame) = stigmata_test State Frame"
  "HadLineupScreenIndicator (process_frame Tess past State Frame) =
     (\<not> stigmata_test State Frame \<and> lineup_test State Frame)"
  by (simp_all add: process_frame_def Let_def split_beta scan_stigmata_screen_fields
      scan_lineup_screen_def add_event_def)

lemma process_frame_events:
  "\<exists>E. Events (process_frame Tess past State Frame) = Events State @ E \<and>
     (if stigmata_test State Frame
      then (if HadStigmataScreenIndicator State then E = []
            else \<exists>E'. E = \<lparr>Type = EVENT_STIGMATA_SCREEN, Value = []\<rparr> # E' \<and>
                   map Type E' = [EVENT_VALKYRIE_NAME, EVENT_STIGMATA, EVENT_STIGMATA, EVENT_STIGMATA])
      else (if lineup_test State Frame \<and> \<not> HadLineupScreenIndicator State
            then E = [\<lparr>Type = EVENT_LINEUP_SCREEN, Value = []\<rparr>] else E = []))"
  using scan_stigmata_screen_events[of Tess past "State\<lparr>HadStigmataScreenIndicator := True\<rparr>" Frame]
  by (auto simp: process_frame_def Let_def split_beta scan_lineup_screen_def add_event_def)


lemma frame_entered_stigmata:
  "entered EVENT_STIGMATA_SCREEN (emitted State (process_frame Tess past State Frame)) =
     (if stigmata_test State Frame \<and> \<not> HadStigmataScreenIndicator State then 1 else 0)"
proof -
  obtain E where E: "Events (process_frame Tess past State Frame) = Events State @ E"
    and cases: "if stigmata_test State Frame
      then (if HadStigmataScreenIndicator State then E = []
            else \<exists>E'. E = \<lparr>Type = EVENT_STIGMATA_SCREEN, Value = []\<rparr> # E' \<and>
                   map Type E' = [EVENT_VALKYRIE_NAME, EVENT_STIGMATA, EVENT_STIGMATA, EVENT_STIGMATA])
      else (if lineup_test State Frame \<and> \<not> HadLineupScreenIndicator State
            then E = [\<lparr>Type = EVENT_LINEUP_SCREEN, Value = []\<rparr>] else E = [])"
    using process_frame_events[of Tess past State Frame] by blast
  have "entered EVENT_STIGMATA_SCREEN E =
      (if stigmata_test State Frame \<and> \<not> HadStigmataScreenIndicator State then 1 else 0)"
    using cases by (auto simp: entered_types split: if_splits)
  then show ?thesis using emitted_append[OF E] by simp
qed

lemma frame_entered_lineup:
  "entered EVENT_LINEUP_SCREEN (emitted State (process_frame Tess past State Frame)) =
     (if (\<not> stigmata_test State Frame \<and> lineup_test State Frame) \<and>
         \<not> HadLineupScreenIndicator State then 1 else 0)"
proof -
  obtain E where E: "Events (process_frame Tess past State Frame) = Events State @ E"
    and cases: "if stigmata_test State Frame
      then (if HadStigmataScreenIndicator State then E = []
            else \<exists>E'. E = \<lparr>Type = EVENT_STIGMATA_SCREEN, Value = []\<rparr> # E' \<and>
                   map Type E' = [EVENT_VALKYRIE_NAME, EVENT_STIGMATA, EVENT_STIGMATA, EVENT_STIGMATA])
      else (if lineup_test State Frame \<and> \<not> HadLineupScreenIndicator State
            then E = [\<lparr>Type = EVENT_LINEUP_SCREEN, Value = []\<rparr>] else E = [])"
    using process_frame_events[of Tess past State Frame] by blast
  have "entered EVENT_LINEUP_SCREEN E =
      (if (\<not> stigmata_test State Frame \<and> lineup_test State Frame) \<and>
          \<not> HadLineupScreenIndicator State then 1 else 0)"
    using cases by (auto simp: entered_types split: if_splits)
  then show ?thesis using emitted_append[OF E] by simp
qed

lemma frame_screen_events:
  "filter is_screen_event (emitted State (process_frame Tess past State Frame)) =
     (if stigmata_test State Frame
      then (if HadStigmataScreenIndicator State then []
            else [\<lparr>Type = EVENT_STIGMATA_SCREEN, Value = []\<rparr>])
      else (if lineup_test State Frame \<and> \<not> HadLineupScreenIndicator State
            then [\<lparr>Type = EVENT_LINEUP_SCREEN, Value = []\<rparr>] else []))"
proof -
  obtain E where E: "Events (process_frame Tess past State Frame) = Events State @ E"
    and cases: "if stigmata_test State Frame
      then (if HadStigmataScreenIndicator State then E = []
            else \<exists>E'. E = \<lparr>Type = EVENT_STIGMATA_SCREEN, Value = []\<rparr> # E' \<and>
                   map Type E' = [EVENT_VALKYRIE_NAME, EVENT_STIGMATA, EVENT_STIGMATA, EVENT_STIGMATA])
      else (if lineup_test State Frame \<and> \<not> HadLineupScreenIndicator State
            then E = [\<lparr>Type = EVENT_LINEUP_SCREEN, Value = []\<rparr>] else E = [])"
    using process_frame_events[of Tess past State Frame] by blast
  have "filter is_screen_event E =
     (if stigmata_test State Frame
      then (if HadStigmataScreenIndicator State then []
            else [\<lparr>Type = EVENT_STIGMATA_SCREEN, Value = []\<rparr>])
      else (if lineup_test State Frame \<and> \<not> HadLineupScreenIndicator State
            then [\<lparr>Type = EVENT_LINEUP_SCREEN, Value = []\<rparr>] else []))"
    using cases by (auto simp: is_screen_event_def split: if_splits)
  then show ?thesis using emitted_append[OF E] by simp
qed

lemma process_frames_Cons:
  "process_frames Tess past State (Frame # Frames) =
     process_frames Tess past (process_frame Tess past State Frame) Frames"
  by (simp add: process_frames_def)

lemma process_frames_snoc:
  "process_frames Tess past State (Frames @ [Frame]) =
     process_frame Tess past (process_frames Tess past State Frames) Frame"
  by (simp add: process_frames_def)

lemma process_frames_width: "Width (process_frames Tess past State Frames) = Width State"
  by (induction Frames arbitrary: State) (simp_all add: process_frames_def process_frame_width)

lemma process_frames_events:
  "\<exists>E. Events (process_frames Tess past State Frames) = Events State @ E"
proof (induction Frames arbitrary: State)
  case Nil
  then show ?case by (simp add: process_frames_def)
next
  case (Cons Frame Frames)
  obtain A where "Events (process_frame Tess past State Frame) = Events State @ A"
    using process_frame_events[of Tess past State Frame] by blast
  moreover obtain B where "Events (process_frames Tess past (process_frame Tess past State Frame) Frames) =
      Events (process_frame Tess past State Frame) @ B"
    using Cons.IH by blast
  ultimately show ?case by (simp add: process_frames_Cons)
qed

lemma emitted_Cons:
  "emitted State (process_frames Tess past State (Frame # Frames)) =
     emitted State (process_frame Tess past State Frame) @
     emitted (process_frame Tess past State Frame)
       (process_frames Tess past (process_frame Tess past State Frame) Frames)"
proof -
  obtain A where A: "Events (process_frame Tess past State Frame) = Events State @ A"
    using process_frame_events[of Tess past State Frame] by blast
  obtain B where B: "Events (process_frames Tess past (process_frame Tess past State Frame) Frames) =
      Events (process_frame Tess past State Frame) @ B"
    using process_frames_events by blast
  show ?thesis
    by (simp add: process_frames_Cons emitted_def A B)
qed

text \<open>
  A latch, in general: a flag \<open>had\<close> of the state that every frame sets to the verdict
  \<open>v\<close>, and an event of type \<open>T\<close> that a frame appends exactly when \<open>v\<close> holds and the
  flag was clear.
\<close>

lemma latch_run:
  assumes count: "\<And>S f. entered T (emitted S (process_frame Tess past S f)) =
                     (if v S f \<and> \<not> had S then 1 else 0)"
    and had: "\<And>S f. had (process_frame Tess past S f) = v S f"
    and v: "\<And>S f. v (process_frame Tess past S f) = v S"
  shows "(\<forall>f\<in>set Frames. v State f) \<Longrightarrow>
           entered T (emitted State (process_frames Tess past State Frames)) =
             (if Frames \<noteq> [] \<and> \<not> had State then 1 else 0)"
    and "(\<forall>f\<in>set Frames. \<not> v State f) \<Longrightarrow>
           entered T (emitted State (process_frames Tess past State Frames)) = 0"
proof (induction Frames arbitrary: State)
  case Nil
  {
    case 1
    then show ?case by (simp add: process_frames_def emitted_def entered_def)
  next
    case 2
    then show ?case by (simp add: process_frames_def emitted_def entered_def)
  }
next
  case (Cons Frame Frames)
  {
    case 1
    then have "entered T (emitted (process_frame Tess past State Frame)
          (process_frames Tess past (process_frame Tess past State Frame) Frames)) = 0"
      using Cons.IH(1)[of "process_frame Tess past State Frame"] had[of State Frame] v[of State Frame]
      by simp
    then show ?case using 1 by (simp add: emitted_Cons entered_append count)
  next
    case 2
    then have "entered T (emitted (process_frame Tess past State Frame)
          (process_frames Tess past (process_frame Tess past State Frame) Frames)) = 0"
      using Cons.IH(2)[of "process_frame Tess past State Frame"] v[of State Frame]
      by simp
    then show ?case using 2 by (simp add: emitted_Cons entered_append count)
  }
qed


section \<open>The sample frames\<close>

lemma threshold_le_1:
  "StigmataScreenThresholdConfidence \<le> 1" "LineupScreenThresholdConfidence \<le> 1"
  by (simp_all add: StigmataScreenThresholdConfidence_def LineupScreenThresholdConfidence_def f32_eval)

lemmas frame_eval = lineup_frame_def both_frame_def paint_def black_def
  StigmataScreenIndicators_def LineupScreenIndicators_def

lemma lineup_frame_lineup: "lineup_verdict lineup_frame"
proof -
  have "\<forall>tp\<in>set LineupScreenIndicators. anchor_exact lineup_frame 1920 tp"
    by (simp add: frame_eval anchor_exact_def)
  then show ?thesis
    unfolding lineup_verdict_def screen_test_def
    using screen_confidence_exact threshold_le_1 by simp
qed

lemma both_frame_lineup: "lineup_verdict both_frame"
proof -
  have "\<forall>tp\<in>set LineupScreenIndicators. anchor_exact both_frame 1920 tp"
    by (simp add: frame_eval anchor_exact_def)
  then show ?thesis
    unfolding lineup_verdict_def screen_test_def
    using screen_confidence_exact threshold_le_1 by simp
qed

lemma both_frame_stigmata: "stigmata_verdict both_frame"
proof -
  have "\<forall>tp\<in>set StigmataScreenIndicators. anchor_exact both_frame 1920 tp"
    by (simp add: frame_eval anchor_exact_def)
  then show ?thesis
    unfolding stigmata_verdict_def screen_test_def
    using screen_confidence_exact threshold_le_1 by simp
qed

lemma pixel_distance_unfold:
  "pixel_distance Pixels width TestPixel =
     sqrtf (fadd (fadd
       (square (channel_delta (Pixels (3 * (width * tp_y TestPixel + tp_x TestPixel) + 2))
          (Color0 TestPixel)))
       (square (channel_delta (Pixels (3 * (width * tp_y TestPixel + tp_x TestPixel) + 1))
          (Color1 TestPixel))))
       (square (channel_delta (Pixels (3 * (width * tp_y TestPixel + tp_x TestPixel)))
          (Color2 TestPixel))))"
  by (simp add: pixel_distance_def Let_def)

lemma sqrtf_unfold:
  "sqrtf x =
     (if x \<le> 0 then 0
      else let m = int (isqrt (nat \<lfloor>x / (2 powi (max (binary_exponent x div 2) (- 126) - 23) *
                      2 powi (max (binary_exponent x div 2) (- 126) - 23))\<rfloor>))
           in of_int
                (if x / (2 powi (max (binary_exponent x div 2) (- 126) - 23) *
                      2 powi (max (binary_exponent x div 2) (- 126) - 23)) <
                    (of_int m + 1 / 2) * (of_int m + 1 / 2) then m
                 else if (of_int m + 1 / 2) * (of_int m + 1 / 2) <
                    x / (2 powi (max (binary_exponent x div 2) (- 126) - 23) *
                      2 powi (max (binary_exponent x div 2) (- 126) - 23)) then m + 1
                 else if even m then m else m + 1) *
              2 powi (max (binary_exponent x div 2) (- 126) - 23))"
  by (simp add: sqrtf_def Let_def)

lemma lineup_frame_distances:
  "pixel_distance lineup_frame 1920
     \<lparr>tp_x = 120, tp_y = 200, Color0 = 0xee, Color1 = 0x9a, Color2 = 0xff\<rparr> = 12543233 / 8388608"
  "pixel_distance lineup_frame 1920
     \<lparr>tp_x = 990, tp_y = 864, Color0 = 0xff, Color1 = 0xdd, Color2 = 0x47\<rparr> = 5671833 / 4194304"
  "pixel_distance lineup_frame 1920
     \<lparr>tp_x = 1350, tp_y = 864, Color0 = 0xff, Color1 = 0xdd, Color2 = 0x47\<rparr> = 5671833 / 4194304"
  "pixel_distance lineup_frame 1920
     \<lparr>tp_x = 1710, tp_y = 864, Color0 = 0xff, Color1 = 0xdd, Color2 = 0x47\<rparr> = 5671833 / 4194304"
  "pixel_distance lineup_frame 1920
     \<lparr>tp_x = 1280, tp_y = 974, Color0 = 0x00, Color1 = 0xc9, Color2 = 0xff\<rparr> = 10681287 / 8388608"
  by (simp_all add: pixel_distance_unfold frame_eval channel_delta_def sqrtf_unfold isqrt_numeral
      f32_eval)

lemma lineup_frame_confidence:
  "screen_confidence lineup_frame 1920 StigmataScreenIndicators = 4571573 / 8388608"
  unfolding screen_confidence_def screen_indicator_def StigmataScreenIndicators_def
    fold_simps id_apply o_apply list.size lineup_frame_distances
  by (simp add: f32_eval)

lemma lineup_frame_stigmata: "\<not> stigmata_verdict lineup_frame"
  by (simp add: stigmata_verdict_def screen_test_def lineup_frame_confidence
      StigmataScreenThresholdConfidence_def f32_eval)

lemma lineup_frame_effective: "lineup_effective lineup_frame"
  by (simp add: lineup_effective_def lineup_frame_stigmata lineup_frame_lineup)

lemma both_frame_effective: "\<not> lineup_effective both_frame"
  by (simp add: lineup_effective_def both_frame_stigmata)


section \<open>The latches over a run of frames\<close>

lemma stigmata_test_frame [simp]:
  "stigmata_test (process_frame Tess past State Frame) = stigmata_test State"
  "lineup_test (process_frame Tess past State Frame) = lineup_test State"
  by (simp_all add: stigmata_test_def lineup_test_def fun_eq_iff process_frame_width)

lemma stigmata_run:
  "(\<forall>f\<in>set Frames. stigmata_test State f) \<Longrightarrow>
     entered EVENT_STIGMATA_SCREEN (emitted State (process_frames Tess past State Frames)) =
       (if Frames \<noteq> [] \<and> \<not> HadStigmataScreenIndicator State then 1 else 0)"
  "(\<forall>f\<in>set Frames. \<not> stigmata_test State f) \<Longrightarrow>
     entered EVENT_STIGMATA_SCREEN (emitted State (process_frames Tess past State Frames)) = 0"
  by (rule latch_run[where had = HadStigmataScreenIndicator and v = stigmata_test];
      simp add: frame_entered_stigmata process_frame_latches)+

lemma lineup_run:
  "(\<forall>f\<in>set Frames. \<not> stigmata_test State f \<and> lineup_test State f) \<Longrightarrow>
     entered EVENT_LINEUP_SCREEN (emitted State (process_frames Tess past State Frames)) =
       (if Frames \<noteq> [] \<and> \<not> HadLineupScreenIndicator State then 1 else 0)"
  "(\<forall>f\<in>set Frames. \<not> (\<not> stigmata_test State f \<and> lineup_test State f)) \<Longrightarrow>
     entered EVENT_LINEUP_SCREEN (emitted State (process_frames Tess past State Frames)) = 0"
  by (rule latch_run[where had = HadLineupScreenIndicator
        and v = "\<lambda>S f. \<not> stigmata_test S f \<and> lineup_test S f"];
      simp add: frame_entered_lineup process_frame_latches)+

lemma initial_tests:
  "stigmata_test (process_frames Tess past (initial_state lineup0) pre) = stigmata_verdict"
  "lineup_test (process_frames Tess past (initial_state lineup0) pre) = lineup_verdict"
  by (simp_all add: stigmata_test_width lineup_test_width process_frames_width initial_state_def)

lemma initial_latches:
  "HadStigmataScreenIndicator (process_frames Tess past (initial_state lineup0) pre) =
     (pre \<noteq> [] \<and> stigmata_verdict (last pre))"
  "pre \<noteq> [] \<Longrightarrow>
     HadLineupScreenIndicator (process_frames Tess past (initial_state lineup0) pre) =
       lineup_effective (last pre)"
proof -
  have snoc: "process_frames Tess past (initial_state lineup0) pre =
      process_frame Tess past (process_frames Tess past (initial_state lineup0) (butlast pre)) (last pre)"
    if "pre \<noteq> []"
    using process_frames_snoc[of Tess past "initial_state lineup0" "butlast pre" "last pre"] that
    by simp
  show "HadStigmataScreenIndicator (process_frames Tess past (initial_state lineup0) pre) =
     (pre \<noteq> [] \<and> stigmata_verdict (last pre))"
  proof (cases "pre = []")
    case True
    then show ?thesis by (simp add: process_frames_def initial_state_def)
  next
    case False
    then show ?thesis
      by (simp add: snoc process_frame_latches initial_tests)
  qed
  show "HadLineupScreenIndicator (process_frames Tess past (initial_state lineup0) pre) =
       lineup_effective (last pre)" if "pre \<noteq> []"
    using that by (simp add: snoc process_frame_latches initial_tests lineup_effective_def)
qed

lemma run_events_stigmata:
  assumes "\<forall>f\<in>set run. stigmata_verdict f"
  shows "entered EVENT_STIGMATA_SCREEN (run_events Tess past lineup0 pre run) =
       (if run \<noteq> [] \<and> (pre = [] \<or> \<not> stigmata_verdict (last pre)) then 1 else 0)"
  unfolding run_events_def Let_def
  using stigmata_run(1)[of run "process_frames Tess past (initial_state lineup0) pre" Tess past] assms
  by (auto simp: initial_tests initial_latches)

lemma run_events_no_stigmata:
  assumes "\<forall>f\<in>set run. \<not> stigmata_verdict f"
  shows "entered EVENT_STIGMATA_SCREEN (run_events Tess past lineup0 pre run) = 0"
  unfolding run_events_def Let_def
  using stigmata_run(2)[of run "process_frames Tess past (initial_state lineup0) pre" Tess past] assms
  by (simp add: initial_tests)

lemma run_events_lineup:
  assumes "\<forall>f\<in>set run. lineup_effective f" and "pre \<noteq> []"
  shows "entered EVENT_LINEUP_SCREEN (run_events Tess past lineup0 pre run) =
       (if run \<noteq> [] \<and> \<not> lineup_effective (last pre) then 1 else 0)"
  unfolding run_events_def Let_def
  using lineup_run(1)[of run "process_frames Tess past (initial_state lineup0) pre" Tess past] assms
  by (simp add: initial_tests initial_latches lineup_effective_def)

lemma run_events_no_lineup:
  assumes "\<forall>f\<in>set run. \<not> lineup_effective f"
  shows "entered EVENT_LINEUP_SCREEN (run_events Tess past lineup0 pre run) = 0"
  unfolding run_events_def Let_def
  using lineup_run(2)[of run "process_frames Tess past (initial_state lineup0) pre" Tess past] assms
  by (simp add: initial_tests lineup_effective_def)

lemma process_frames_Nil: "process_frames Tess past State [] = State"
  by (simp add: process_frames_def)

lemma emitted_same: "emitted State State = []"
  by (simp add: emitted_def)

lemma entered_Nil: "entered T [] = 0"
  by (simp add: entered_def)

text \<open>
  C3, as stated, fails for the lineup latch: on three consecutive frames that all match
  the lineup fingerprint, the second of which also matches the stigmata fingerprint,
  the lineup screen is entered twice. The stigmata test has priority, and a frame it
  wins clears the lineup latch.
\<close>

theorem latch_once_per_run_counterexample:
  "lineup_verdict lineup_frame \<and> lineup_verdict both_frame \<and>
   entered EVENT_LINEUP_SCREEN
     (run_events silent NUL False [] [lineup_frame, both_frame, lineup_frame]) = 2"
proof -
  have "entered EVENT_LINEUP_SCREEN
      (run_events silent NUL False [] [lineup_frame, both_frame, lineup_frame]) = 2"
    unfolding run_events_def Let_def
    by (simp add: process_frames_Nil emitted_Cons emitted_same entered_append entered_Nil
        frame_entered_lineup process_frame_latches stigmata_test_width lineup_test_width
        initial_state_def lineup_frame_stigmata lineup_frame_lineup both_frame_stigmata
        both_frame_lineup)
  then show ?thesis using lineup_frame_lineup both_frame_lineup by simp
qed

text \<open>
  C3, amended. During a run of consecutive frames that match the stigmata fingerprint,
  which starts the video or follows a frame that does not match it, the stigmata
  screen is entered exactly once; during a run of frames that do not match, never.
  The lineup latch does the same for the verdict the loop acts on, "the lineup
  fingerprint matches and the stigmata fingerprint does not", on every run that
  follows a frame. (A run that starts the video is left out: \<open>main\<close> does not
  initialise the lineup latch.)
\<close>

theorem latch_once_per_run:
  "(run \<noteq> [] \<and> (\<forall>f\<in>set run. stigmata_verdict f) \<and> (pre = [] \<or> \<not> stigmata_verdict (last pre)) \<longrightarrow>
      entered EVENT_STIGMATA_SCREEN (run_events Tess past lineup0 pre run) = 1) \<and>
   ((\<forall>f\<in>set run. \<not> stigmata_verdict f) \<longrightarrow>
      entered EVENT_STIGMATA_SCREEN (run_events Tess past lineup0 pre run) = 0) \<and>
   (run \<noteq> [] \<and> (\<forall>f\<in>set run. lineup_effective f) \<and> pre \<noteq> [] \<and> \<not> lineup_effective (last pre) \<longrightarrow>
      entered EVENT_LINEUP_SCREEN (run_events Tess past lineup0 pre run) = 1) \<and>
   ((\<forall>f\<in>set run. \<not> lineup_effective f) \<longrightarrow>
      entered EVENT_LINEUP_SCREEN (run_events Tess past lineup0 pre run) = 0)"
  using run_events_stigmata[of run Tess past lineup0 pre]
    run_events_no_stigmata[of run Tess past lineup0 pre]
    run_events_lineup[of run pre Tess past lineup0]
    run_events_no_lineup[of run Tess past lineup0 pre]
  by auto

theorem latch_once_per_run_witness:
  "\<not> stigmata_verdict lineup_frame \<and> stigmata_verdict both_frame \<and>
   lineup_effective lineup_frame \<and> \<not> lineup_effective both_frame \<and>
   entered EVENT_STIGMATA_SCREEN
     (run_events silent NUL True [lineup_frame] [both_frame, both_frame]) = 1 \<and>
   entered EVENT_STIGMATA_SCREEN
     (run_events silent NUL True [both_frame] [lineup_frame, lineup_frame]) = 0 \<and>
   entered EVENT_LINEUP_SCREEN
     (run_events silent NUL True [both_frame] [lineup_frame, lineup_frame]) = 1 \<and>
   entered EVENT_LINEUP_SCREEN
     (run_events silent NUL True [lineup_frame] [both_frame, both_frame]) = 0"
  using latch_once_per_run[of "[both_frame, both_frame]" "[lineup_frame]" silent NUL True]
    latch_once_per_run[of "[lineup_frame, lineup_frame]" "[both_frame]" silent NUL True]
    lineup_frame_stigmata both_frame_stigmata lineup_frame_effective both_frame_effective
  by simp

text \<open>
  C5, as stated, fails: on a frame that matches both fingerprints the lineup test
  succeeds, but the stigmata test has priority and the lineup latch is cleared.
\<close>

theorem latch_state_counterexample:
  "stigmata_test (initial_state False) both_frame \<and> lineup_test (initial_state False) both_frame \<and>
   \<not> HadLineupScreenIndicator (process_frame silent NUL (initial_state False) both_frame)"
  by (simp add: process_frame_latches stigmata_test_width lineup_test_width initial_state_def
      both_frame_stigmata both_frame_lineup)

text \<open>
  C5, amended: after every frame, from every state, the stigmata latch equals the
  verdict of the stigmata test on that frame, and the lineup latch equals "the stigmata
  test failed and the lineup test succeeded" on that frame.
\<close>

theorem latch_state_after_frame:
  "HadStigmataScreenIndicator (process_frame Tess past State Frame) = stigmata_test State Frame \<and>
   HadLineupScreenIndicator (process_frame Tess past State Frame) =
     (\<not> stigmata_test State Frame \<and> lineup_test State Frame)"
  by (simp add: process_frame_latches)

theorem latch_state_after_frame_witness:
  "HadStigmataScreenIndicator (process_frame silent NUL (initial_state True) lineup_frame) = False \<and>
   HadLineupScreenIndicator (process_frame silent NUL (initial_state True) lineup_frame) = True"
  using latch_state_after_frame[of silent NUL "initial_state True" lineup_frame]
  by (simp add: stigmata_test_width lineup_test_width initial_state_def
      lineup_frame_stigmata lineup_frame_lineup)

text \<open>
  C6. From every state in which both latches are idle, a frame on which both tests
  succeed appends exactly one screen-entered event, the one of the stigmata screen.
\<close>

theorem one_screen_event_when_both_match:
  assumes "stigmata_test State Frame" and "lineup_test State Frame"
    and "\<not> HadStigmataScreenIndicator State" and "\<not> HadLineupScreenIndicator State"
  shows "filter is_screen_event (emitted State (process_frame Tess past State Frame)) =
           [\<lparr>Type = EVENT_STIGMATA_SCREEN, Value = []\<rparr>]"
  using assms by (simp add: frame_screen_events)

theorem one_screen_event_when_both_match_witness:
  "stigmata_test (initial_state False) both_frame \<and> lineup_test (initial_state False) both_frame \<and>
   \<not> HadStigmataScreenIndicator (initial_state False) \<and>
   \<not> HadLineupScreenIndicator (initial_state False) \<and>
   filter is_screen_event
     (emitted (initial_state False) (process_frame silent NUL (initial_state False) both_frame)) =
     [\<lparr>Type = EVENT_STIGMATA_SCREEN, Value = []\<rparr>]"
  using one_screen_event_when_both_match[of "initial_state False" both_frame silent NUL]
  by (simp add: stigmata_test_width lineup_test_width initial_state_def
      both_frame_stigmata both_frame_lineup)

end
